theory Spec2Isabelle
  imports Main "HOL-Library.Word"
begin

section \<open>Data model of SkipList.h\<close>

text \<open>
  A node pointer is an address or \<open>nullptr\<close>. Nodes live in a store that maps an
  address to the node allocated there; \<open>new\<close> takes the next unused address and
  \<open>delete\<close> removes the node from the store. Dereferencing \<open>nullptr\<close> or the
  address of a deleted node is an error of the model.
\<close>

type_synonym ptr = "nat option"

datatype error = InvalidPointer | OutOfRange | AssertionFailed

text \<open>Template parameter \<open>MaximumLevels\<close>, at its default.\<close>

definition MaximumLevels :: nat where
  "MaximumLevels = 16"

text \<open>\<open>NodeType\<close>: the key and value pair and one forward pointer per level.\<close>

record ('k, 'v) NodeType =
  m_KeyValue :: "'k \<times> 'v"
  m_ForwardPointers :: "ptr list"

text \<open>
  The attributes of \<open>SkipList\<close>. \<open>nodes\<close> and \<open>next_free\<close> are the store of the
  nodes the list has allocated. \<open>m_HighestLevel\<close> is an \<open>int\<close> in the source that
  every loop keeps at or above zero; \<open>m_Size\<close> is a \<open>size_t\<close>.
\<close>

record ('k, 'v, 'g) SkipList =
  nodes :: "nat \<Rightarrow> ('k, 'v) NodeType option"
  next_free :: nat
  m_Header :: nat
  m_End :: nat
  m_HighestLevel :: nat
  m_RandomGenerator :: 'g
  m_Size :: "64 word"

text \<open>
  A \<open>const KeyType &\<close> is the location of a key object together with the key read
  through it. A key is either the \<open>m_KeyValue.first\<close> of the node at an address or
  the key object a caller passed in, which lives outside every node. Keys are
  \<open>const\<close> inside the pair, so the value behind a reference never changes.
\<close>

datatype keyloc = InNode nat | Outside

type_synonym 'k keyref = "keyloc \<times> 'k"

subsection \<open>NodeType\<close>

text \<open>The two constructors: every forward pointer starts as \<open>nullptr\<close>.\<close>

definition NodeType_new :: "'k \<times> 'v \<Rightarrow> ('k, 'v) NodeType" where
  "NodeType_new kv =
     \<lparr>m_KeyValue = kv, m_ForwardPointers = replicate MaximumLevels None\<rparr>"

definition deref :: "('k, 'v, 'g) SkipList \<Rightarrow> ptr \<Rightarrow> error + (nat \<times> ('k, 'v) NodeType)" where
  "deref s p =
     (case p of
        None \<Rightarrow> Inl InvalidPointer
      | Some a \<Rightarrow> (case nodes s a of None \<Rightarrow> Inl InvalidPointer | Some n \<Rightarrow> Inr (a, n)))"

definition GetForwardPointer :: "('k, 'v, 'g) SkipList \<Rightarrow> ptr \<Rightarrow> nat \<Rightarrow> error + ptr" where
  "GetForwardPointer s p Level =
     (case deref s p of
        Inl e \<Rightarrow> Inl e
      | Inr (a, n) \<Rightarrow>
          if Level < length (m_ForwardPointers n) then Inr (m_ForwardPointers n ! Level)
          else Inl OutOfRange)"

definition GetKey :: "('k, 'v, 'g) SkipList \<Rightarrow> ptr \<Rightarrow> error + 'k keyref" where
  "GetKey s p =
     (case deref s p of
        Inl e \<Rightarrow> Inl e
      | Inr (a, n) \<Rightarrow> Inr (InNode a, fst (m_KeyValue n)))"

definition SetForwardPointer ::
  "('k, 'v, 'g) SkipList \<Rightarrow> ptr \<Rightarrow> nat \<Rightarrow> ptr \<Rightarrow> error + ('k, 'v, 'g) SkipList" where
  "SetForwardPointer s p Level Node =
     (case deref s p of
        Inl e \<Rightarrow> Inl e
      | Inr (a, n) \<Rightarrow>
          if Level < length (m_ForwardPointers n)
          then Inr (s\<lparr>nodes := (nodes s)
                  (a \<mapsto> n\<lparr>m_ForwardPointers := (m_ForwardPointers n)[Level := Node]\<rparr>)\<rparr>)
          else Inl OutOfRange)"

definition SetForwardPointers ::
  "('k, 'v, 'g) SkipList \<Rightarrow> ptr \<Rightarrow> ptr \<Rightarrow> error + ('k, 'v, 'g) SkipList" where
  "SetForwardPointers s p Node =
     (case deref s p of
        Inl e \<Rightarrow> Inl e
      | Inr (a, n) \<Rightarrow>
          Inr (s\<lparr>nodes := (nodes s)
                 (a \<mapsto> n\<lparr>m_ForwardPointers :=
                            replicate (length (m_ForwardPointers n)) Node\<rparr>)\<rparr>))"

definition SetValue ::
  "('k, 'v, 'g) SkipList \<Rightarrow> ptr \<Rightarrow> 'v \<Rightarrow> error + ('k, 'v, 'g) SkipList" where
  "SetValue s p NewValue =
     (case deref s p of
        Inl e \<Rightarrow> Inl e
      | Inr (a, n) \<Rightarrow>
          Inr (s\<lparr>nodes := (nodes s)(a \<mapsto> n\<lparr>m_KeyValue := (fst (m_KeyValue n), NewValue)\<rparr>)\<rparr>))"

text \<open>\<open>new NodeType(...)\<close> and \<open>delete\<close>.\<close>

definition new_node ::
  "('k, 'v, 'g) SkipList \<Rightarrow> ('k, 'v) NodeType \<Rightarrow> nat \<times> ('k, 'v, 'g) SkipList" where
  "new_node s n =
     (next_free s, s\<lparr>nodes := (nodes s)(next_free s \<mapsto> n), next_free := Suc (next_free s)\<rparr>)"

definition delete_node ::
  "('k, 'v, 'g) SkipList \<Rightarrow> ptr \<Rightarrow> error + ('k, 'v, 'g) SkipList" where
  "delete_node s p =
     (case deref s p of
        Inl e \<Rightarrow> Inl e
      | Inr (a, n) \<Rightarrow> Inr (s\<lparr>nodes := (nodes s)(a := None)\<rparr>))"

subsection \<open>Key comparison\<close>

text \<open>
  \<open>IsLessThan\<close> compares the addresses of its two arguments with each other and with
  the addresses of the keys of the two sentinels before it calls the user's
  comparison object \<open>lt\<close>.
\<close>

definition IsLessThan ::
  "('k \<Rightarrow> 'k \<Rightarrow> bool) \<Rightarrow> ('k, 'v, 'g) SkipList \<Rightarrow> 'k keyref \<Rightarrow> 'k keyref \<Rightarrow> bool" where
  "IsLessThan lt s LeftHandSide RightHandSide =
     (if fst LeftHandSide = fst RightHandSide then False
      else if fst RightHandSide = InNode (m_End s) then True
      else if fst LeftHandSide = InNode (m_End s) then False
      else if fst RightHandSide = InNode (m_Header s) then False
      else if fst LeftHandSide = InNode (m_Header s) then True
      else lt (snd LeftHandSide) (snd RightHandSide))"

definition IsLessThanOrEqual ::
  "('k \<Rightarrow> 'k \<Rightarrow> bool) \<Rightarrow> ('k, 'v, 'g) SkipList \<Rightarrow> 'k keyref \<Rightarrow> 'k keyref \<Rightarrow> bool" where
  "IsLessThanOrEqual lt s LeftHandSide RightHandSide =
     (if IsLessThan lt s LeftHandSide RightHandSide then True
      else if \<not> IsLessThan lt s LeftHandSide RightHandSide \<and>
              \<not> IsLessThan lt s RightHandSide LeftHandSide then True
      else False)"

subsection \<open>Results of operations\<close>

text \<open>
  An operation either returns a value, stops with an error, or does not return
  (\<open>None\<close>): the \<open>while\<close> loops that follow forward pointers have no bound of their
  own.
\<close>

type_synonym 'a run = "(error + 'a) option"

definition ok_bind :: "error + 'a \<Rightarrow> ('a \<Rightarrow> error + 'b) \<Rightarrow> error + 'b" where
  "ok_bind m f = (case m of Inl e \<Rightarrow> Inl e | Inr x \<Rightarrow> f x)"

definition and_then :: "'a run \<Rightarrow> ('a \<Rightarrow> 'b run) \<Rightarrow> 'b run" where
  "and_then m f = (case m of None \<Rightarrow> None | Some (Inl e) \<Rightarrow> Some (Inl e) | Some (Inr x) \<Rightarrow> f x)"

text \<open>\<open>std::array::at\<close>, for reading and for assigning through the returned reference.\<close>

definition at :: "'a list \<Rightarrow> nat \<Rightarrow> error + 'a" where
  "at xs i = (if i < length xs then Inr (xs ! i) else Inl OutOfRange)"

definition at_put :: "'a list \<Rightarrow> nat \<Rightarrow> 'a \<Rightarrow> error + 'a list" where
  "at_put xs i v = (if i < length xs then Inr (xs[i := v]) else Inl OutOfRange)"

subsection \<open>The level-descending traversal\<close>

text \<open>
  The inner loop of all three traversals:
  \<open>while(IsLessThan(CurrentNode->GetForwardPointer(CurrentLevel)->GetKey(), Key))
     CurrentNode = CurrentNode->GetForwardPointer(CurrentLevel);\<close>
\<close>

partial_function (option) seek ::
  "('k \<Rightarrow> 'k \<Rightarrow> bool) \<Rightarrow> ('k, 'v, 'g) SkipList \<Rightarrow> 'k keyref \<Rightarrow> nat \<Rightarrow> ptr \<Rightarrow> (error + ptr) option"
where
  "seek lt s Key CurrentLevel CurrentNode =
     (case GetForwardPointer s CurrentNode CurrentLevel of
        Inl e \<Rightarrow> Some (Inl e)
      | Inr Next \<Rightarrow>
          (case GetKey s Next of
             Inl e \<Rightarrow> Some (Inl e)
           | Inr NextKey \<Rightarrow>
               if IsLessThan lt s NextKey Key
               then seek lt s Key CurrentLevel Next
               else Some (Inr CurrentNode)))"

text \<open>The two assertions that \<open>Insert\<close> and \<open>Search\<close> make after the inner loop.\<close>

definition check_invariants ::
  "('k \<Rightarrow> 'k \<Rightarrow> bool) \<Rightarrow> ('k, 'v, 'g) SkipList \<Rightarrow> 'k keyref \<Rightarrow> nat \<Rightarrow> ptr \<Rightarrow> error + unit" where
  "check_invariants lt s Key CurrentLevel CurrentNode =
     ok_bind (GetKey s CurrentNode) (\<lambda>NodeKey.
       if \<not> IsLessThan lt s NodeKey Key then Inl AssertionFailed
       else
         ok_bind (GetForwardPointer s CurrentNode CurrentLevel) (\<lambda>Next.
         ok_bind (GetKey s Next) (\<lambda>NextKey.
           if IsLessThanOrEqual lt s Key NextKey then Inr () else Inl AssertionFailed)))"

text \<open>One iteration of the \<open>for\<close> loop over the levels, in each of the three operations.\<close>

definition Insert_level ::
  "('k \<Rightarrow> 'k \<Rightarrow> bool) \<Rightarrow> ('k, 'v, 'g) SkipList \<Rightarrow> 'k keyref \<Rightarrow> nat \<Rightarrow> ptr \<Rightarrow> ptr list
     \<Rightarrow> (ptr \<times> ptr list) run" where
  "Insert_level lt s Key CurrentLevel CurrentNode UpdatedPointers =
     and_then (seek lt s Key CurrentLevel CurrentNode) (\<lambda>CurrentNode'.
       Some (ok_bind (check_invariants lt s Key CurrentLevel CurrentNode') (\<lambda>_.
             ok_bind (at_put UpdatedPointers CurrentLevel CurrentNode') (\<lambda>UpdatedPointers'.
               Inr (CurrentNode', UpdatedPointers')))))"

definition Delete_level ::
  "('k \<Rightarrow> 'k \<Rightarrow> bool) \<Rightarrow> ('k, 'v, 'g) SkipList \<Rightarrow> 'k keyref \<Rightarrow> nat \<Rightarrow> ptr \<Rightarrow> ptr list
     \<Rightarrow> (ptr \<times> ptr list) run" where
  "Delete_level lt s Key CurrentLevel CurrentNode UpdatedPointers =
     and_then (seek lt s Key CurrentLevel CurrentNode) (\<lambda>CurrentNode'.
       Some (ok_bind (at_put UpdatedPointers CurrentLevel CurrentNode') (\<lambda>UpdatedPointers'.
               Inr (CurrentNode', UpdatedPointers'))))"

definition Search_level ::
  "('k \<Rightarrow> 'k \<Rightarrow> bool) \<Rightarrow> ('k, 'v, 'g) SkipList \<Rightarrow> 'k keyref \<Rightarrow> nat \<Rightarrow> ptr \<Rightarrow> ptr run" where
  "Search_level lt s Key CurrentLevel CurrentNode =
     and_then (seek lt s Key CurrentLevel CurrentNode) (\<lambda>CurrentNode'.
       Some (ok_bind (check_invariants lt s Key CurrentLevel CurrentNode') (\<lambda>_.
               Inr CurrentNode')))"

text \<open>
  \<open>for(int CurrentLevel = m_HighestLevel; CurrentLevel >= 0; --CurrentLevel)\<close>,
  started at the level given.
\<close>

fun Insert_levels ::
  "('k \<Rightarrow> 'k \<Rightarrow> bool) \<Rightarrow> ('k, 'v, 'g) SkipList \<Rightarrow> 'k keyref \<Rightarrow> nat \<Rightarrow> ptr \<Rightarrow> ptr list
     \<Rightarrow> (ptr \<times> ptr list) run" where
  "Insert_levels lt s Key 0 CurrentNode UpdatedPointers =
     Insert_level lt s Key 0 CurrentNode UpdatedPointers"
| "Insert_levels lt s Key (Suc l) CurrentNode UpdatedPointers =
     and_then (Insert_level lt s Key (Suc l) CurrentNode UpdatedPointers)
       (\<lambda>(CurrentNode', UpdatedPointers'). Insert_levels lt s Key l CurrentNode' UpdatedPointers')"

fun Delete_levels ::
  "('k \<Rightarrow> 'k \<Rightarrow> bool) \<Rightarrow> ('k, 'v, 'g) SkipList \<Rightarrow> 'k keyref \<Rightarrow> nat \<Rightarrow> ptr \<Rightarrow> ptr list
     \<Rightarrow> (ptr \<times> ptr list) run" where
  "Delete_levels lt s Key 0 CurrentNode UpdatedPointers =
     Delete_level lt s Key 0 CurrentNode UpdatedPointers"
| "Delete_levels lt s Key (Suc l) CurrentNode UpdatedPointers =
     and_then (Delete_level lt s Key (Suc l) CurrentNode UpdatedPointers)
       (\<lambda>(CurrentNode', UpdatedPointers'). Delete_levels lt s Key l CurrentNode' UpdatedPointers')"

fun Search_levels ::
  "('k \<Rightarrow> 'k \<Rightarrow> bool) \<Rightarrow> ('k, 'v, 'g) SkipList \<Rightarrow> 'k keyref \<Rightarrow> nat \<Rightarrow> ptr \<Rightarrow> ptr run" where
  "Search_levels lt s Key 0 CurrentNode = Search_level lt s Key 0 CurrentNode"
| "Search_levels lt s Key (Suc l) CurrentNode =
     and_then (Search_level lt s Key (Suc l) CurrentNode)
       (\<lambda>CurrentNode'. Search_levels lt s Key l CurrentNode')"

subsection \<open>Level selector\<close>

text \<open>
  \<open>coin g\<close> is one evaluation of \<open>RandomDistribution(m_RandomGenerator) < 0.5f\<close>: the
  outcome and the generator's next state. The loop draws before it tests the cap.
\<close>

function GetRandomLevel_loop :: "('g \<Rightarrow> bool \<times> 'g) \<Rightarrow> 'g \<Rightarrow> nat \<Rightarrow> nat \<times> 'g" where
  "GetRandomLevel_loop coin g CurrentLevel =
     (case coin g of
        (heads, g') \<Rightarrow>
          if heads \<and> CurrentLevel < MaximumLevels - 1
          then GetRandomLevel_loop coin g' (CurrentLevel + 1)
          else (CurrentLevel, g'))"
  by pat_completeness auto
termination
  by (relation "measure (\<lambda>(coin, g, CurrentLevel). MaximumLevels - 1 - CurrentLevel)") auto

declare GetRandomLevel_loop.simps [simp del]

definition GetRandomLevel :: "('g \<Rightarrow> bool \<times> 'g) \<Rightarrow> 'g \<Rightarrow> nat \<times> 'g" where
  "GetRandomLevel coin g = GetRandomLevel_loop coin g 0"

subsection \<open>Construction, size and iteration bounds\<close>

text \<open>
  The constructor, given \<open>KeyType()\<close>, \<open>ValueType()\<close> and the seeded generator: the
  header and the terminal node are default-constructed, then every forward pointer
  of the header is set to the terminal node.
\<close>

definition SkipList_new :: "'k \<Rightarrow> 'v \<Rightarrow> 'g \<Rightarrow> ('k, 'v, 'g) SkipList" where
  "SkipList_new DefaultKey DefaultValue g =
     \<lparr>nodes = (\<lambda>_. None)
        (0 \<mapsto> (NodeType_new (DefaultKey, DefaultValue))
                 \<lparr>m_ForwardPointers := replicate MaximumLevels (Some 1)\<rparr>,
         1 \<mapsto> NodeType_new (DefaultKey, DefaultValue)),
      next_free = 2, m_Header = 0, m_End = 1, m_HighestLevel = 0,
      m_RandomGenerator = g, m_Size = 0\<rparr>"

definition GetSize :: "('k, 'v, 'g) SkipList \<Rightarrow> 64 word" where
  "GetSize s = m_Size s"

record SkipListIterator =
  m_CurrentNode :: ptr

definition begin_iterator :: "('k, 'v, 'g) SkipList \<Rightarrow> error + SkipListIterator" where
  "begin_iterator s = ok_bind (GetForwardPointer s (Some (m_Header s)) 0) (\<lambda>p. Inr \<lparr>m_CurrentNode = p\<rparr>)"

definition end_iterator :: "('k, 'v, 'g) SkipList \<Rightarrow> SkipListIterator" where
  "end_iterator s = \<lparr>m_CurrentNode = Some (m_End s)\<rparr>"

subsection \<open>Insert\<close>

text \<open>
  \<open>for(CurrentLevel = m_HighestLevel + 1; CurrentLevel <= NewRandomLevel; ++CurrentLevel)
     UpdatedPointers.at(CurrentLevel) = m_Header;\<close>
\<close>

function Insert_raise :: "nat \<Rightarrow> ptr \<Rightarrow> nat \<Rightarrow> ptr list \<Rightarrow> error + ptr list" where
  "Insert_raise NewRandomLevel Header CurrentLevel UpdatedPointers =
     (if CurrentLevel \<le> NewRandomLevel
      then (case at_put UpdatedPointers CurrentLevel Header of
              Inl e \<Rightarrow> Inl e
            | Inr UpdatedPointers' \<Rightarrow>
                Insert_raise NewRandomLevel Header (CurrentLevel + 1) UpdatedPointers')
      else Inr UpdatedPointers)"
  by pat_completeness auto
termination
  by (relation "measure (\<lambda>(NewRandomLevel, Header, CurrentLevel, UpdatedPointers).
        NewRandomLevel + 1 - CurrentLevel)") auto

declare Insert_raise.simps [simp del]

text \<open>
  The splice loop, \<open>for(CurrentLevel = 0; CurrentLevel <= m_HighestLevel; ++CurrentLevel)\<close>:
  the new node's pointer is set from the predecessor's, then the predecessor's pointer
  is set to the new node. \<open>HighestLevel\<close> is \<open>m_HighestLevel\<close>, which the loop does not
  change.
\<close>

function Insert_splice ::
  "nat \<Rightarrow> ptr list \<Rightarrow> ptr \<Rightarrow> nat \<Rightarrow> ('k, 'v, 'g) SkipList \<Rightarrow> error + ('k, 'v, 'g) SkipList" where
  "Insert_splice HighestLevel UpdatedPointers NewNode CurrentLevel s =
     (if CurrentLevel \<le> HighestLevel
      then (case at UpdatedPointers CurrentLevel of
              Inl e \<Rightarrow> Inl e
            | Inr LeftNode \<Rightarrow>
               (case GetForwardPointer s LeftNode CurrentLevel of
                  Inl e \<Rightarrow> Inl e
                | Inr RightNode \<Rightarrow>
                   (case SetForwardPointer s NewNode CurrentLevel RightNode of
                      Inl e \<Rightarrow> Inl e
                    | Inr s1 \<Rightarrow>
                       (case SetForwardPointer s1 LeftNode CurrentLevel NewNode of
                          Inl e \<Rightarrow> Inl e
                        | Inr s2 \<Rightarrow>
                            Insert_splice HighestLevel UpdatedPointers NewNode
                              (CurrentLevel + 1) s2))))
      else Inr s)"
  by pat_completeness auto
termination
  by (relation "measure (\<lambda>(HighestLevel, UpdatedPointers, NewNode, CurrentLevel, s).
        HighestLevel + 1 - CurrentLevel)") auto

declare Insert_splice.simps [simp del]

definition Insert ::
  "('k \<Rightarrow> 'k \<Rightarrow> bool) \<Rightarrow> ('k \<Rightarrow> 'k \<Rightarrow> bool) \<Rightarrow> ('g \<Rightarrow> bool \<times> 'g) \<Rightarrow> 'k \<Rightarrow> 'v
     \<Rightarrow> ('k, 'v, 'g) SkipList \<Rightarrow> ('k, 'v, 'g) SkipList run" where
  "Insert lt eq coin Key Value s =
     and_then
       (Insert_levels lt s (Outside, Key) (m_HighestLevel s) (Some (m_Header s))
          (replicate MaximumLevels None))
       (\<lambda>(LeftNode, UpdatedPointers).
          Some (ok_bind (GetForwardPointer s LeftNode 0) (\<lambda>CurrentNode.
                ok_bind (GetKey s CurrentNode) (\<lambda>NodeKey.
                  if eq (snd NodeKey) Key then SetValue s CurrentNode Value
                  else
                    (case GetRandomLevel coin (m_RandomGenerator s) of
                       (NewRandomLevel, g') \<Rightarrow>
                         ok_bind
                           (if NewRandomLevel > m_HighestLevel s
                            then ok_bind
                                   (Insert_raise NewRandomLevel (Some (m_Header s))
                                      (m_HighestLevel s + 1) UpdatedPointers)
                                   (\<lambda>UpdatedPointers'. Inr (UpdatedPointers', NewRandomLevel))
                            else Inr (UpdatedPointers, m_HighestLevel s))
                           (\<lambda>(UpdatedPointers', HighestLevel').
                              (case new_node
                                      (s\<lparr>m_RandomGenerator := g',
                                         m_HighestLevel := HighestLevel'\<rparr>)
                                      (NodeType_new (Key, Value)) of
                                 (a, s1) \<Rightarrow>
                                   ok_bind
                                     (Insert_splice (m_HighestLevel s1) UpdatedPointers'
                                        (Some a) 0 s1)
                                     (\<lambda>s2. Inr (s2\<lparr>m_Size := m_Size s2 + 1\<rparr>)))))))))"

subsection \<open>Search\<close>

text \<open>
  The equality test on the level-0 successor is the key type's \<open>operator==\<close>, \<open>eq\<close>.
  \<open>SearchKey\<close> is a reference; the key object behind it is the caller's, outside
  every node.
\<close>

definition Search ::
  "('k \<Rightarrow> 'k \<Rightarrow> bool) \<Rightarrow> ('k \<Rightarrow> 'k \<Rightarrow> bool) \<Rightarrow> 'k \<Rightarrow> ('k, 'v, 'g) SkipList
     \<Rightarrow> SkipListIterator run" where
  "Search lt eq SearchKey s =
     and_then
       (Search_levels lt s (Outside, SearchKey) (m_HighestLevel s) (Some (m_Header s)))
       (\<lambda>LeftNode.
          Some (ok_bind (GetForwardPointer s LeftNode 0) (\<lambda>CurrentNode.
                ok_bind (GetKey s CurrentNode) (\<lambda>NodeKey.
                  if eq (snd NodeKey) SearchKey then Inr \<lparr>m_CurrentNode = CurrentNode\<rparr>
                  else Inr \<lparr>m_CurrentNode = Some (m_End s)\<rparr>))))"

subsection \<open>Delete\<close>

text \<open>
  The splice loop of \<open>Delete\<close>, which leaves at the first level whose predecessor does
  not point to the node found. \<open>HighestLevel\<close> is \<open>m_HighestLevel\<close>, which the loop
  does not change.
\<close>

function Delete_splice ::
  "nat \<Rightarrow> ptr list \<Rightarrow> ptr \<Rightarrow> nat \<Rightarrow> ('k, 'v, 'g) SkipList \<Rightarrow> error + ('k, 'v, 'g) SkipList" where
  "Delete_splice HighestLevel UpdatedPointers CurrentNode CurrentLevel s =
     (if CurrentLevel \<le> HighestLevel
      then (case at UpdatedPointers CurrentLevel of
              Inl e \<Rightarrow> Inl e
            | Inr LeftNode \<Rightarrow>
               (case GetForwardPointer s LeftNode CurrentLevel of
                  Inl e \<Rightarrow> Inl e
                | Inr Pointee \<Rightarrow>
                    if Pointee \<noteq> CurrentNode then Inr s
                    else
                      (case GetForwardPointer s CurrentNode CurrentLevel of
                         Inl e \<Rightarrow> Inl e
                       | Inr RightNode \<Rightarrow>
                          (case SetForwardPointer s LeftNode CurrentLevel RightNode of
                             Inl e \<Rightarrow> Inl e
                           | Inr s1 \<Rightarrow>
                               Delete_splice HighestLevel UpdatedPointers CurrentNode
                                 (CurrentLevel + 1) s1))))
      else Inr s)"
  by pat_completeness auto
termination
  by (relation "measure (\<lambda>(HighestLevel, UpdatedPointers, CurrentNode, CurrentLevel, s).
        HighestLevel + 1 - CurrentLevel)") auto

declare Delete_splice.simps [simp del]

text \<open>
  \<open>while(m_HighestLevel > 0 && !m_Header->GetForwardPointer(m_HighestLevel))
     --m_HighestLevel;\<close>
\<close>

function Delete_lower :: "('k, 'v, 'g) SkipList \<Rightarrow> error + ('k, 'v, 'g) SkipList" where
  "Delete_lower s =
     (if m_HighestLevel s > 0
      then (case GetForwardPointer s (Some (m_Header s)) (m_HighestLevel s) of
              Inl e \<Rightarrow> Inl e
            | Inr p \<Rightarrow>
                if p = None then Delete_lower (s\<lparr>m_HighestLevel := m_HighestLevel s - 1\<rparr>)
                else Inr s)
      else Inr s)"
  by pat_completeness auto
termination
  by (relation "measure m_HighestLevel") auto

declare Delete_lower.simps [simp del]

text \<open>
  The test on the level-0 successor is the key type's \<open>operator!=\<close>, \<open>neq\<close>. \<open>Key\<close> is
  a reference; the key object behind it is the caller's, outside every node. The
  result is the number of elements removed and the list afterwards.
\<close>

definition Delete ::
  "('k \<Rightarrow> 'k \<Rightarrow> bool) \<Rightarrow> ('k \<Rightarrow> 'k \<Rightarrow> bool) \<Rightarrow> 'k \<Rightarrow> ('k, 'v, 'g) SkipList
     \<Rightarrow> (64 word \<times> ('k, 'v, 'g) SkipList) run" where
  "Delete lt neq Key s =
     and_then
       (Delete_levels lt s (Outside, Key) (m_HighestLevel s) (Some (m_Header s))
          (replicate MaximumLevels None))
       (\<lambda>(LeftNode, UpdatedPointers).
          Some (ok_bind (GetForwardPointer s LeftNode 0) (\<lambda>CurrentNode.
                ok_bind (GetKey s CurrentNode) (\<lambda>NodeKey.
                  if neq (snd NodeKey) Key then Inr (0, s)
                  else
                    ok_bind (Delete_splice (m_HighestLevel s) UpdatedPointers CurrentNode 0 s)
                      (\<lambda>s1.
                    ok_bind (delete_node s1 CurrentNode) (\<lambda>s2.
                    ok_bind (Delete_lower s2) (\<lambda>s3.
                      Inr (1, s3\<lparr>m_Size := m_Size s3 - 1\<rparr>))))))))"

subsection \<open>Clear\<close>

partial_function (option) Clear_loop ::
  "('k, 'v, 'g) SkipList \<Rightarrow> ptr \<Rightarrow> (error + ('k, 'v, 'g) SkipList) option" where
  "Clear_loop s CurrentNode =
     (if CurrentNode \<noteq> Some (m_End s)
      then (case GetForwardPointer s CurrentNode 0 of
              Inl e \<Rightarrow> Some (Inl e)
            | Inr NextNode \<Rightarrow>
               (case delete_node s CurrentNode of
                  Inl e \<Rightarrow> Some (Inl e)
                | Inr s' \<Rightarrow> Clear_loop s' NextNode))
      else Some (Inr s))"

definition Clear :: "('k, 'v, 'g) SkipList \<Rightarrow> ('k, 'v, 'g) SkipList run" where
  "Clear s =
     (case GetForwardPointer s (Some (m_Header s)) 0 of
        Inl e \<Rightarrow> Some (Inl e)
      | Inr First \<Rightarrow>
          and_then (Clear_loop s First) (\<lambda>s1.
            Some (ok_bind (SetForwardPointers s1 (Some (m_Header s1)) (Some (m_End s1)))
                    (\<lambda>s2. Inr (s2\<lparr>m_HighestLevel := 0, m_Size := 0\<rparr>)))))"

subsection \<open>SkipListIterator\<close>

text \<open>
  An iterator object lives in a variable of the caller; \<open>operator++\<close> works on it
  through \<open>this\<close>. The prefix form moves the object to the level-0 successor and
  returns a reference to it.
\<close>

definition prefix_increment ::
  "('k, 'v, 'g) SkipList \<Rightarrow> SkipListIterator \<Rightarrow> error + SkipListIterator" where
  "prefix_increment s this =
     ok_bind (GetForwardPointer s (m_CurrentNode this) 0) (\<lambda>p.
       Inr (this\<lparr>m_CurrentNode := p\<rparr>))"



section \<open>Inputs for concrete runs\<close>

text \<open>
  A generator that replays a fixed list of draws and then only draws tails (the
  source asks for a constant seed for deterministic behaviour).
\<close>

definition replay :: "bool list \<Rightarrow> bool \<times> bool list" where
  "replay g = (case g of [] \<Rightarrow> (False, []) | b # bs \<Rightarrow> (b, bs))"

text \<open>
  A user-supplied comparison object on \<open>int\<close> keys that orders them by their tens:
  a strict weak ordering under which 11 and 12 are equivalent.
\<close>

definition tens_less :: "int \<Rightarrow> int \<Rightarrow> bool" where
  "tens_less a b = (a div 10 < b div 10)"

section \<open>The shape of a well-formed list\<close>

text \<open>
  \<open>chain h L p xs e\<close>: starting with pointer \<open>p\<close> and following the forward pointers
  of level \<open>L\<close> in the store \<open>h\<close> visits exactly the nodes \<open>xs\<close>, in this order, and
  then reaches \<open>e\<close>.
\<close>

primrec chain ::
  "(nat \<Rightarrow> ('k, 'v) NodeType option) \<Rightarrow> nat \<Rightarrow> ptr \<Rightarrow> nat list \<Rightarrow> nat \<Rightarrow> bool" where
  "chain h L p [] e = (p = Some e)"
| "chain h L p (x # xs) e =
     (p = Some x \<and> x \<noteq> e \<and>
      (case h x of
         None \<Rightarrow> False
       | Some n \<Rightarrow> L < length (m_ForwardPointers n) \<and> chain h L (m_ForwardPointers n ! L) xs e))"

definition key_at :: "('k, 'v, 'g) SkipList \<Rightarrow> nat \<Rightarrow> 'k" where
  "key_at s a = fst (m_KeyValue (the (nodes s a)))"

definition next_at :: "('k, 'v, 'g) SkipList \<Rightarrow> nat \<Rightarrow> nat \<Rightarrow> ptr" where
  "next_at s L a = m_ForwardPointers (the (nodes s a)) ! L"

text \<open>
  \<open>skiplist_inv lt s xss\<close>: the list \<open>s\<close> is well formed, and \<open>xss ! L\<close> is the sequence
  of real nodes on level \<open>L\<close>. The two sentinels are distinct and allocated; every
  node has \<open>MaximumLevels\<close> forward pointers and an address below \<open>next_free\<close>; on
  every level the chain from the header runs through \<open>xss ! L\<close> to the terminal
  node, with keys strictly ascending under \<open>lt\<close>; a node on a level is on the level
  below; no node is on a level above \<open>m_HighestLevel\<close>.
\<close>

definition skiplist_inv ::
  "('k \<Rightarrow> 'k \<Rightarrow> bool) \<Rightarrow> ('k, 'v, 'g) SkipList \<Rightarrow> nat list list \<Rightarrow> bool" where
  "skiplist_inv lt s xss \<longleftrightarrow>
     m_Header s \<noteq> m_End s \<and> m_HighestLevel s < MaximumLevels \<and> length xss = MaximumLevels \<and>
     nodes s (m_End s) \<noteq> None \<and>
     (\<forall>a n. nodes s a = Some n \<longrightarrow>
        a < next_free s \<and> length (m_ForwardPointers n) = MaximumLevels) \<and>
     (\<forall>L < MaximumLevels.
        chain (nodes s) L (Some (m_Header s)) (m_Header s # xss ! L) (m_End s) \<and>
        m_Header s \<notin> set (xss ! L) \<and>
        sorted_wrt lt (map (key_at s) (xss ! L))) \<and>
     (\<forall>L. Suc L < MaximumLevels \<longrightarrow> set (xss ! Suc L) \<subseteq> set (xss ! L)) \<and>
     (\<forall>L. m_HighestLevel s < L \<and> L < MaximumLevels \<longrightarrow> xss ! L = [])"

text \<open>
  \<open>pred_at lt s xss k L c\<close>: on level \<open>L\<close> the node \<open>c\<close> is the rightmost node to the
  left of key \<open>k\<close>: it is the header or a node with a key less than \<open>k\<close>, and the
  node after it, if it is not the terminal node, has a key not less than \<open>k\<close>.
\<close>

definition pred_at ::
  "('k \<Rightarrow> 'k \<Rightarrow> bool) \<Rightarrow> ('k, 'v, 'g) SkipList \<Rightarrow> nat list list \<Rightarrow> 'k \<Rightarrow> nat \<Rightarrow> nat \<Rightarrow> bool" where
  "pred_at lt s xss k L c \<longleftrightarrow>
     (\<exists>pre suf. m_Header s # xss ! L = pre @ c # suf \<and>
        (c = m_Header s \<or> lt (key_at s c) k) \<and>
        (suf = [] \<or> \<not> lt (key_at s (hd suf)) k))"

text \<open>
  \<open>level_ok lt s L xs\<close> is the part of \<open>skiplist_inv\<close> that speaks about level \<open>L\<close>.
\<close>

definition level_ok ::
  "('k \<Rightarrow> 'k \<Rightarrow> bool) \<Rightarrow> ('k, 'v, 'g) SkipList \<Rightarrow> nat \<Rightarrow> nat list \<Rightarrow> bool" where
  "level_ok lt s L xs \<longleftrightarrow>
     chain (nodes s) L (Some (m_Header s)) (m_Header s # xs) (m_End s) \<and>
     m_Header s \<notin> set xs \<and>
     sorted_wrt lt (map (key_at s) xs)"

text \<open>
  \<open>ins_point lt s k xs c\<close>: in the level with nodes \<open>xs\<close>, a node with key \<open>k\<close> fits
  directly after \<open>c\<close>: \<open>c\<close> is the header or has a smaller key, and the node after
  \<open>c\<close>, if it is not the terminal node, has a greater key.
\<close>

definition ins_point ::
  "('k \<Rightarrow> 'k \<Rightarrow> bool) \<Rightarrow> ('k, 'v, 'g) SkipList \<Rightarrow> 'k \<Rightarrow> nat list \<Rightarrow> nat \<Rightarrow> bool" where
  "ins_point lt s k xs c \<longleftrightarrow>
     (\<exists>pre suf. m_Header s # xs = pre @ c # suf \<and>
        (c = m_Header s \<or> lt (key_at s c) k) \<and>
        (suf = [] \<or> lt k (key_at s (hd suf))))"

text \<open>\<open>ins_after c new xs\<close> is \<open>xs\<close> with \<open>new\<close> put in after the first \<open>c\<close>.\<close>

fun ins_after :: "nat \<Rightarrow> nat \<Rightarrow> nat list \<Rightarrow> nat list" where
  "ins_after c new [] = []"
| "ins_after c new (x # xs) = (if x = c then x # new # xs else x # ins_after c new xs)"

text \<open>
  \<open>only_level L h h'\<close>: the stores \<open>h\<close> and \<open>h'\<close> hold the same nodes, with the same
  keys and values, and differ at most in forward pointers of level \<open>L\<close>.
\<close>

definition only_level ::
  "nat \<Rightarrow> (nat \<Rightarrow> ('k, 'v) NodeType option) \<Rightarrow> (nat \<Rightarrow> ('k, 'v) NodeType option) \<Rightarrow> bool" where
  "only_level L h h' \<longleftrightarrow>
     (\<forall>x. case h x of
            None \<Rightarrow> h' x = None
          | Some n \<Rightarrow>
             (\<exists>n'. h' x = Some n' \<and> m_KeyValue n' = m_KeyValue n \<and>
                   length (m_ForwardPointers n') = length (m_ForwardPointers n) \<and>
                   (\<forall>M. M \<noteq> L \<longrightarrow> m_ForwardPointers n' ! M = m_ForwardPointers n ! M)))"

text \<open>
  \<open>built lt eq neq coin s\<close>: the list \<open>s\<close> comes from the constructor by calls of
  \<open>Insert\<close>, \<open>Clear\<close> and \<open>Delete\<close> that returned, where no \<open>Delete\<close> was called
  with a key that \<open>operator!=\<close> does not tell apart from the key stored in the
  terminal node.
\<close>

inductive built ::
  "('k \<Rightarrow> 'k \<Rightarrow> bool) \<Rightarrow> ('k \<Rightarrow> 'k \<Rightarrow> bool) \<Rightarrow> ('k \<Rightarrow> 'k \<Rightarrow> bool) \<Rightarrow> ('g \<Rightarrow> bool \<times> 'g)
     \<Rightarrow> ('k, 'v, 'g) SkipList \<Rightarrow> bool"
  for lt eq neq coin where
  built_new: "built lt eq neq coin (SkipList_new DefaultKey DefaultValue g)"
| built_Insert:
    "built lt eq neq coin s \<Longrightarrow> Insert lt eq coin k v s = Some (Inr s') \<Longrightarrow>
       built lt eq neq coin s'"
| built_Delete:
    "built lt eq neq coin s \<Longrightarrow> neq (key_at s (m_End s)) k \<Longrightarrow>
       Delete lt neq k s = Some (Inr (n, s')) \<Longrightarrow> built lt eq neq coin s'"
| built_Clear:
    "built lt eq neq coin s \<Longrightarrow> Clear s = Some (Inr s') \<Longrightarrow> built lt eq neq coin s'"

section \<open>Evaluation of concrete runs\<close>

lemmas run_defs =
  Insert_def Search_def Delete_def Insert_level_def Search_level_def Delete_level_def
  check_invariants_def GetForwardPointer_def GetKey_def SetForwardPointer_def SetValue_def
  deref_def ok_bind_def and_then_def at_def at_put_def IsLessThan_def IsLessThanOrEqual_def
  SkipList_new_def NodeType_new_def MaximumLevels_def new_node_def delete_node_def
  GetRandomLevel_def replay_def seek.simps GetRandomLevel_loop.simps Insert_raise.simps
  Insert_splice.simps Delete_splice.simps Delete_lower.simps begin_iterator_def
  end_iterator_def prefix_increment_def GetSize_def

section \<open>The sentinels never change\<close>

lemma SetForwardPointer_sentinels:
  "SetForwardPointer s p L q = Inr s' \<Longrightarrow>
     m_Header s' = m_Header s \<and> m_End s' = m_End s \<and> m_HighestLevel s' = m_HighestLevel s"
  by (auto simp: SetForwardPointer_def split: sum.splits if_splits)

lemma Insert_splice_sentinels:
  "Insert_splice hi ups new L s = Inr s' \<Longrightarrow> m_Header s' = m_Header s \<and> m_End s' = m_End s"
proof (induction hi ups new L s rule: Insert_splice.induct)
  case (1 hi ups new L s)
  show ?case
  proof (cases "L \<le> hi")
    case False
    with "1.prems" show ?thesis by (simp add: Insert_splice.simps)
  next
    case True
    with "1.prems" obtain l r s1 s2 where st:
      "at ups L = Inr l" "GetForwardPointer s l L = Inr r"
      "SetForwardPointer s new L r = Inr s1" "SetForwardPointer s1 l L new = Inr s2"
      "Insert_splice hi ups new (L + 1) s2 = Inr s'"
      by (subst (asm) Insert_splice.simps) (auto split: sum.splits)
    from "1.IH"[OF True st(1) st(2) st(3) st(4) st(5)]
      SetForwardPointer_sentinels[OF st(3)] SetForwardPointer_sentinels[OF st(4)]
    show ?thesis by simp
  qed
qed

lemma Insert_sentinels:
  assumes "Insert lt eq coin Key Value s = Some (Inr s')"
  shows "m_Header s' = m_Header s \<and> m_End s' = m_End s"
  using assms
  by (auto simp: Insert_def and_then_def ok_bind_def SetValue_def new_node_def
      split: option.splits sum.splits prod.splits if_splits
      dest!: Insert_splice_sentinels)

section \<open>Comparison against the sentinels\<close>

text \<open>
  Claim C9. Let \<open>(loc, k)\<close> be a reference to a real key: a key object that is not
  the key of the header or of the terminal node, with any value \<open>k\<close> (the largest
  and the smallest representable key included). In a list whose sentinels are
  distinct, and in the list after any \<open>Insert\<close> into it, \<open>IsLessThan\<close> finds the
  header's key less than \<open>k\<close> and not the reverse, and \<open>k\<close> less than the terminal
  node's key and not the reverse. This holds for every user comparison \<open>lt\<close> and
  whatever keys \<open>hk\<close> and \<open>ek\<close> the sentinels store: the decision is made on the
  addresses alone and \<open>lt\<close> is never consulted.
\<close>

theorem IsLessThan_sentinels:
  assumes "m_Header s \<noteq> m_End s"
    and "loc \<noteq> InNode (m_Header s)" and "loc \<noteq> InNode (m_End s)"
    and "s' = s \<or> Insert lt' eq coin Key Value s = Some (Inr s')"
  shows "IsLessThan lt s' (InNode (m_Header s'), hk) (loc, k) \<and>
         \<not> IsLessThan lt s' (loc, k) (InNode (m_Header s'), hk) \<and>
         IsLessThan lt s' (loc, k) (InNode (m_End s'), ek) \<and>
         \<not> IsLessThan lt s' (InNode (m_End s'), ek) (loc, k)"
proof -
  from assms(4) have "m_Header s' = m_Header s \<and> m_End s' = m_End s"
    by (auto dest: Insert_sentinels)
  with assms(1-3) show ?thesis by (auto simp: IsLessThan_def)
qed

theorem IsLessThan_sentinels_witness:
  "and_then (Insert (<) (=) replay (2147483647 :: int) ''max'' (SkipList_new 0 [] []))
     (\<lambda>s'. Some (Inr (IsLessThan (<) s' (InNode (m_Header s'), 0) (Outside, - 2147483648) \<and>
         \<not> IsLessThan (<) s' (Outside, - 2147483648) (InNode (m_Header s'), 0) \<and>
         IsLessThan (<) s' (InNode 2, 2147483647) (InNode (m_End s'), 0) \<and>
         \<not> IsLessThan (<) s' (InNode (m_End s'), 0) (InNode 2, 2147483647))))
   = Some (Inr True)"
proof -
  let ?s = "SkipList_new (0 :: int) ([] :: string) ([] :: bool list)"
  obtain s' where s': "Insert (<) (=) replay (2147483647 :: int) ''max'' ?s = Some (Inr s')"
    by (simp add: run_defs)
  have h: "m_Header ?s \<noteq> m_End ?s"
    "Outside \<noteq> InNode (m_Header ?s)" "Outside \<noteq> InNode (m_End ?s)"
    "InNode 2 \<noteq> InNode (m_Header ?s)" "InNode 2 \<noteq> InNode (m_End ?s)"
    by (simp_all add: SkipList_new_def)
  from IsLessThan_sentinels[OF h(1) h(2) h(3) disjI2[OF s'], of "(<)" 0 "- 2147483648" 0]
    IsLessThan_sentinels[OF h(1) h(4) h(5) disjI2[OF s'], of "(<)" 0 "2147483647" 0]
  show ?thesis using s' by (simp add: and_then_def)
qed

section \<open>Postfix increment of the iterator\<close>



section \<open>The match test on the level-0 successor\<close>

text \<open>
  Claim C1, at the key \<open>KeyType()\<close> that both sentinels store. On a fresh
  \<open>SkipList<int, std::string>\<close>, \<open>Insert(0, "x")\<close> stops in front of the terminal
  node, finds its key equal to 0 under \<open>operator==\<close> and overwrites the terminal
  node's value; \<open>Search(0)\<close> then returns the end-of-sequence iterator, and the list
  is still empty (\<open>begin()\<close> is \<open>end()\<close>).
\<close>

theorem Insert_default_key_then_Search:
  "and_then (Insert (<) (=) replay (0 :: int) ''x'' (SkipList_new 0 [] []))
     (\<lambda>s. and_then (Search (<) (=) 0 s)
        (\<lambda>it. Some (Inr (it = end_iterator s, begin_iterator s = Inr (end_iterator s)))))
   = Some (Inr (True, True))"
  by (simp add: run_defs)

text \<open>
  Claim C2. Under the comparison \<open>tens_less\<close> the keys 11 and 12 are equivalent:
  neither is less than the other. With 11 stored, \<open>Search(12)\<close> returns the
  end-of-sequence iterator, \<open>Delete(12)\<close> removes nothing, and \<open>Insert(12, "b")\<close>
  adds a second node: the three operations decide the match with \<open>operator==\<close> and
  \<open>operator!=\<close> of the key type.
\<close>

theorem equivalent_key_not_matched:
  "\<not> tens_less 11 12 \<and> \<not> tens_less 12 11 \<and>
   and_then (Insert tens_less (=) replay 11 ''a'' (SkipList_new 0 [] []))
     (\<lambda>s. and_then (Search tens_less (=) 12 s)
        (\<lambda>it. and_then (Delete tens_less (\<noteq>) 12 s)
          (\<lambda>(n, s1). and_then (Insert tens_less (=) replay 12 ''b'' s)
             (\<lambda>s2. Some (Inr (it = end_iterator s, n, GetSize s2))))))
   = Some (Inr (True, 0, 2))"
  by (simp add: run_defs tens_less_def)

section \<open>The splice loop of Insert\<close>

text \<open>
  Claim C3. The generator draws heads, tails, tails. \<open>Insert(1, "a")\<close> draws level 1
  and raises \<open>m_HighestLevel\<close> to 1. \<open>Insert(2, "b")\<close> then draws level 0, and the
  new node (at address 3) is nevertheless spliced in on level 1 as well: the node
  of key 1 (address 2) points to it there, and it points to the terminal node.
  The loop runs up to \<open>m_HighestLevel\<close>, not up to the level drawn.
\<close>

theorem splice_above_drawn_level:
  "and_then (Insert (<) (=) replay (1 :: int) ''a'' (SkipList_new 0 [] [True, False, False]))
     (\<lambda>s. and_then (Insert (<) (=) replay 2 ''b'' s)
        (\<lambda>s'. Some (Inr (m_HighestLevel s, GetRandomLevel replay (m_RandomGenerator s),
                 GetForwardPointer s' (Some 2) 1, GetForwardPointer s' (Some 3) 1,
                 map_option (fst \<circ> m_KeyValue) (nodes s' 3)))))
   = Some (Inr (1, (0, []), Inr (Some 3), Inr (Some 1), Some 2))"
  by (simp add: run_defs)

section \<open>The highest level after Delete\<close>

text \<open>
  Claim C4. The generator draws heads, tails, so \<open>Insert(1, "a")\<close> puts the only node
  on levels 0 and 1 and \<open>m_HighestLevel\<close> is 1. \<open>Delete(1)\<close> removes it and returns 1;
  the header's pointer on level 1 is then the terminal node, which is not
  \<open>nullptr\<close>, and \<open>m_HighestLevel\<close> is still 1 in the empty list.
\<close>

theorem Delete_keeps_highest_level:
  "and_then (Insert (<) (=) replay (1 :: int) ''a'' (SkipList_new 0 [] [True, False]))
     (\<lambda>s. and_then (Delete (<) (\<noteq>) 1 s)
        (\<lambda>(n, s'). Some (Inr (m_HighestLevel s, GetForwardPointer s (Some (m_Header s)) 1, n,
                 GetForwardPointer s' (Some (m_Header s')) 1 = Inr (Some (m_End s')),
                 GetSize s', m_HighestLevel s'))))
   = Some (Inr (1, Inr (Some 2), 1, True, 0, 1))"
  by (simp add: run_defs)

section \<open>Delete of the sentinels' key\<close>

text \<open>
  Claim C5. After \<open>Insert(-5, "a")\<close> on a fresh \<open>SkipList<int, std::string>\<close>,
  \<open>Delete(0)\<close> stops in front of the terminal node, finds its key not different
  from 0 under \<open>operator!=\<close>, and unlinks and deletes the terminal node. \<open>begin()\<close> is
  then the node of key -5 (address 2), whose level-0 pointer is \<open>nullptr\<close>: the
  chain from the header no longer ends at the terminal node, which is gone.
\<close>

theorem chain_broken_after_Delete_default_key:
  "and_then (Insert (<) (=) replay (- 5 :: int) ''a'' (SkipList_new 0 [] []))
     (\<lambda>s. and_then (Delete (<) (\<noteq>) 0 s)
        (\<lambda>(n, s'). Some (Inr (begin_iterator s', GetForwardPointer s' (Some 2) 0,
                 nodes s' (m_End s') = None))))
   = Some (Inr (Inr \<lparr>m_CurrentNode = Some 2\<rparr>, Inr None, True))"
  by (simp add: run_defs)

text \<open>
  Claim C6. On a fresh \<open>SkipList<int, std::string>\<close>, after \<open>Insert(0, "x")\<close> the size
  is 0, and after \<open>Insert(7, "y")\<close> as well it is 1: two distinct keys were inserted.
\<close>

theorem size_after_Insert_default_key:
  "and_then (Insert (<) (=) replay (0 :: int) ''x'' (SkipList_new 0 [] []))
     (\<lambda>s. and_then (Insert (<) (=) replay 7 ''y'' s)
       (\<lambda>s'. Some (Inr (GetSize s, GetSize s'))))
   = Some (Inr (0, 1))"
  by (simp add: run_defs)

text \<open>
  Claim C7. On a fresh \<open>SkipList<int, std::string>\<close>, which stores no element,
  \<open>Delete(0)\<close> returns 1, the size wraps around to \<open>2^64 - 1\<close>, the terminal node (address 1) is
  deleted and the header's level-0 pointer is \<open>nullptr\<close>.
\<close>

theorem Delete_absent_default_key:
  "and_then (Delete (<) (\<noteq>) (0 :: int) (SkipList_new 0 ([] :: string) ([] :: bool list)))
     (\<lambda>(n, s'). Some (Inr (n, GetSize s', nodes s' 1 = None,
          GetForwardPointer s' (Some (m_Header s')) 0)))
   = Some (Inr (1, 18446744073709551615, True, Inr None))"
  by (simp add: run_defs)

section \<open>Traversal of a well-formed list\<close>

lemma IsLessThan_End_left [simp]:
  "IsLessThan lt s (InNode (m_End s), ek) (Outside, k) = False"
  by (simp add: IsLessThan_def)

lemma IsLessThan_node_arg:
  "y \<noteq> m_End s \<Longrightarrow> y \<noteq> m_Header s \<Longrightarrow> IsLessThan lt s (InNode y, yk) (Outside, k) = lt yk k"
  by (simp add: IsLessThan_def)

lemma IsLessThan_Header_arg:
  "m_Header s \<noteq> m_End s \<Longrightarrow> IsLessThan lt s (InNode (m_Header s), hk) (Outside, k) = True"
  by (simp add: IsLessThan_def)

lemma seek_chain:
  assumes "chain (nodes s) L (next_at s L c) ys (m_End s)"
    and "nodes s c \<noteq> None" and "L < length (m_ForwardPointers (the (nodes s c)))"
    and "m_Header s \<notin> set ys" and "nodes s (m_End s) \<noteq> None"
  shows "seek lt s (Outside, k) L (Some c)
           = Some (Inr (Some (last (c # takeWhile (\<lambda>y. lt (key_at s y) k) ys))))"
  using assms
proof (induction ys arbitrary: c)
  case Nil
  then show ?case
    by (subst seek.simps)
      (auto simp: GetForwardPointer_def GetKey_def deref_def next_at_def split: option.splits)
next
  case (Cons y ys)
  from Cons.prems obtain n where n: "nodes s y = Some n" "y \<noteq> m_End s" "next_at s L c = Some y"
    "L < length (m_ForwardPointers n)" "chain (nodes s) L (m_ForwardPointers n ! L) ys (m_End s)"
    by (auto split: option.splits)
  have yH: "y \<noteq> m_Header s" using Cons.prems by auto
  have IH: "seek lt s (Outside, k) L (Some y)
           = Some (Inr (Some (last (y # takeWhile (\<lambda>y. lt (key_at s y) k) ys))))"
    using Cons.IH[of y] n Cons.prems by (auto simp: next_at_def)
  show ?case
    using Cons.prems n yH IH
    by (subst seek.simps)
      (auto simp: GetForwardPointer_def GetKey_def deref_def next_at_def key_at_def
        IsLessThan_node_arg split: option.splits)
qed


lemma chain_split:
  "chain h L p (pre @ c # ys) e \<Longrightarrow>
     \<exists>n. h c = Some n \<and> c \<noteq> e \<and> L < length (m_ForwardPointers n) \<and>
         chain h L (m_ForwardPointers n ! L) ys e"
  by (induction pre arbitrary: p) (auto split: option.splits)

lemma chain_mem:
  "chain h L p xs e \<Longrightarrow> c \<in> set xs \<Longrightarrow> h c \<noteq> None \<and> c \<noteq> e"
  by (induction xs arbitrary: p) (auto split: option.splits)

lemma chain_hd:
  "chain h L p xs e \<Longrightarrow> p = Some (hd (xs @ [e]))"
  by (cases xs) auto

lemma IsLessThanOrEqual_after_loop:
  "\<not> IsLessThan lt s R L \<Longrightarrow> IsLessThanOrEqual lt s L R"
  by (simp add: IsLessThanOrEqual_def)

lemma Insert_level_ok:
  assumes inv: "skiplist_inv lt s xss" and L: "L < MaximumLevels"
    and ups: "length ups = MaximumLevels"
    and c: "m_Header s # xss ! L = pre @ c # ys"
    and ck: "c = m_Header s \<or> lt (key_at s c) k"
  shows "\<exists>c'.
           Insert_level lt s (Outside, k) L (Some c) ups = Some (Inr (Some c', ups[L := Some c'])) \<and>
           pred_at lt s xss k L c'"
proof -
  let ?H = "m_Header s" and ?E = "m_End s"
  let ?P = "\<lambda>y. lt (key_at s y) k"
  from inv L have HE: "?H \<noteq> ?E" and Eok: "nodes s ?E \<noteq> None"
    and ch: "chain (nodes s) L (Some ?H) (?H # xss ! L) ?E"
    and Hnot: "?H \<notin> set (xss ! L)"
    by (auto simp: skiplist_inv_def)
  from chain_split[of "nodes s" L "Some ?H" pre c ys ?E] ch c
  obtain n where n: "nodes s c = Some n" "c \<noteq> ?E" "L < length (m_ForwardPointers n)"
    "chain (nodes s) L (m_ForwardPointers n ! L) ys ?E"
    by auto
  have ys_sub: "set ys \<subseteq> set (xss ! L)"
  proof (cases pre)
    case Nil then show ?thesis using c by auto
  next
    case (Cons a list) then show ?thesis using c by auto
  qed
  have Hys: "?H \<notin> set ys" using ys_sub Hnot by auto
  define c' where "c' = last (c # takeWhile ?P ys)"
  define suf where "suf = dropWhile ?P ys"
  define pre' where "pre' = pre @ butlast (c # takeWhile ?P ys)"
  have sk: "seek lt s (Outside, k) L (Some c) = Some (Inr (Some c'))"
    unfolding c'_def
    using seek_chain[of s L c ys lt k] n Hys Eok by (simp add: next_at_def)
  have "pre @ c # ys = pre @ (c # takeWhile ?P ys) @ dropWhile ?P ys" by simp
  also have "\<dots> = pre @ (butlast (c # takeWhile ?P ys) @ [c']) @ suf"
    unfolding c'_def suf_def by (subst append_butlast_last_id) simp_all
  finally have dec: "?H # xss ! L = pre' @ c' # suf"
    using c by (simp add: pre'_def)
  have c'k: "c' = ?H \<or> ?P c'"
  proof (cases "takeWhile ?P ys = []")
    case True then show ?thesis using ck by (simp add: c'_def)
  next
    case False
    then have "c' \<in> set (takeWhile ?P ys)" by (simp add: c'_def)
    then show ?thesis by (auto dest: set_takeWhileD)
  qed
  have sufk: "suf = [] \<or> \<not> ?P (hd suf)"
    unfolding suf_def using hd_dropWhile[of ?P ys] by auto
  from chain_split[of "nodes s" L "Some ?H" pre' c' suf ?E] ch dec
  obtain n' where n': "nodes s c' = Some n'" "c' \<noteq> ?E" "L < length (m_ForwardPointers n')"
    "chain (nodes s) L (m_ForwardPointers n' ! L) suf ?E"
    by auto
  have suf_sub: "set suf \<subseteq> set ys" unfolding suf_def by (auto dest: set_dropWhileD)
  have a1: "IsLessThan lt s (InNode c', fst (m_KeyValue n')) (Outside, k)"
    using c'k n' HE by (auto simp: IsLessThan_def key_at_def)
  have a2: "\<exists>nk. GetKey s (m_ForwardPointers n' ! L) = Inr nk \<and> IsLessThanOrEqual lt s (Outside, k) nk"
  proof (cases suf)
    case Nil
    then have "m_ForwardPointers n' ! L = Some ?E" using n' by simp
    moreover obtain en where "nodes s ?E = Some en" using Eok by auto
    ultimately have "GetKey s (m_ForwardPointers n' ! L) = Inr (InNode ?E, fst (m_KeyValue en))"
      by (simp add: GetKey_def deref_def)
    moreover have "IsLessThanOrEqual lt s (Outside, k) (InNode ?E, fst (m_KeyValue en))"
      by (simp add: IsLessThanOrEqual_def IsLessThan_def)
    ultimately show ?thesis by blast
  next
    case (Cons y list)
    then obtain ny where ny: "m_ForwardPointers n' ! L = Some y" "nodes s y = Some ny" "y \<noteq> ?E"
      using n' by (auto split: option.splits)
    have "y \<noteq> ?H" using Cons suf_sub Hys by auto
    moreover have "\<not> lt (fst (m_KeyValue ny)) k" using sufk Cons ny by (simp add: key_at_def)
    ultimately have "IsLessThanOrEqual lt s (Outside, k) (InNode y, fst (m_KeyValue ny))"
      using ny by (intro IsLessThanOrEqual_after_loop) (simp add: IsLessThan_def)
    moreover have "GetKey s (m_ForwardPointers n' ! L) = Inr (InNode y, fst (m_KeyValue ny))"
      using ny by (simp add: GetKey_def deref_def)
    ultimately show ?thesis by blast
  qed
  have chk: "check_invariants lt s (Outside, k) L (Some c') = Inr ()"
    using a1 a2 n'
    by (auto simp: check_invariants_def ok_bind_def GetKey_def GetForwardPointer_def deref_def)
  have "Insert_level lt s (Outside, k) L (Some c) ups = Some (Inr (Some c', ups[L := Some c']))"
    using sk chk ups L
    by (simp add: Insert_level_def and_then_def ok_bind_def at_put_def)
  with dec c'k sufk show ?thesis unfolding pred_at_def by blast
qed


lemma pred_at_mem:
  "pred_at lt s xss k L c \<Longrightarrow> c = m_Header s \<or> (c \<in> set (xss ! L) \<and> lt (key_at s c) k)"
  unfolding pred_at_def
  by (metis append_eq_Cons_conv in_set_conv_decomp list.sel(3) list.set_intros(1) set_ConsD)

lemma Insert_levels_ok:
  assumes inv: "skiplist_inv lt s xss" and L: "L < MaximumLevels"
    and ups: "length ups = MaximumLevels"
    and c: "m_Header s # xss ! L = pre @ c # ys"
    and ck: "c = m_Header s \<or> lt (key_at s c) k"
  shows "\<exists>c0 ups'.
           Insert_levels lt s (Outside, k) L (Some c) ups = Some (Inr (Some c0, ups')) \<and>
           length ups' = MaximumLevels \<and> ups' ! 0 = Some c0 \<and>
           (\<forall>M \<le> L. \<exists>cM. ups' ! M = Some cM \<and> pred_at lt s xss k M cM) \<and>
           (\<forall>M. L < M \<longrightarrow> ups' ! M = ups ! M)"
  using L ups c ck
proof (induction L arbitrary: c ups pre ys)
  case 0
  from Insert_level_ok[OF inv "0.prems"(1) "0.prems"(2) "0.prems"(3) "0.prems"(4)]
  obtain c' where c': "Insert_level lt s (Outside, k) 0 (Some c) ups = Some (Inr (Some c', ups[0 := Some c']))"
    "pred_at lt s xss k 0 c'" by blast
  then show ?case using "0.prems"(1,2)
    by (intro exI[of _ c'] exI[of _ "ups[0 := Some c']"]) auto
next
  case (Suc L)
  from Insert_level_ok[OF inv Suc.prems(1) Suc.prems(2) Suc.prems(3) Suc.prems(4)]
  obtain c' where c': "Insert_level lt s (Outside, k) (Suc L) (Some c) ups
                        = Some (Inr (Some c', ups[Suc L := Some c']))"
    "pred_at lt s xss k (Suc L) c'" by blast
  have sub: "set (xss ! Suc L) \<subseteq> set (xss ! L)"
    using inv Suc.prems(1) by (simp add: skiplist_inv_def)
  from pred_at_mem[OF c'(2)] sub
  have mem: "c' \<in> set (m_Header s # xss ! L)" and c'k: "c' = m_Header s \<or> lt (key_at s c') k"
    by auto
  from mem obtain pre' ys' where dec: "m_Header s # xss ! L = pre' @ c' # ys'"
    by (meson split_list)
  have L': "L < MaximumLevels" using Suc.prems(1) by simp
  have len: "length (ups[Suc L := Some c']) = MaximumLevels" using Suc.prems(2) by simp
  from Suc.IH[OF L' len dec c'k]
  obtain c0 ups' where r: "Insert_levels lt s (Outside, k) L (Some c') (ups[Suc L := Some c'])
        = Some (Inr (Some c0, ups'))"
    "length ups' = MaximumLevels" "ups' ! 0 = Some c0"
    "\<forall>M \<le> L. \<exists>cM. ups' ! M = Some cM \<and> pred_at lt s xss k M cM"
    "\<forall>M. L < M \<longrightarrow> ups' ! M = (ups[Suc L := Some c']) ! M"
    by blast
  have top: "ups' ! Suc L = Some c'" using r(5) Suc.prems(1,2) by simp
  have "\<forall>M \<le> Suc L. \<exists>cM. ups' ! M = Some cM \<and> pred_at lt s xss k M cM"
    using r(4) top c'(2) by (auto simp: le_Suc_eq)
  moreover have "\<forall>M. Suc L < M \<longrightarrow> ups' ! M = ups ! M" using r(5) by auto
  moreover have "Insert_levels lt s (Outside, k) (Suc L) (Some c) ups = Some (Inr (Some c0, ups'))"
    using c'(1) r(1) by (simp add: and_then_def)
  ultimately show ?case using r(2,3) by blast
qed

lemma pred_at_successor:
  assumes inv: "skiplist_inv lt s xss" and tr: "transp lt" and irr: "irreflp lt"
    and p: "pred_at lt s xss k 0 c"
    and a: "a \<in> set (xss ! 0)" and ak: "key_at s a = k"
  shows "next_at s 0 c = Some a \<and> nodes s c \<noteq> None"
proof -
  let ?H = "m_Header s"
  have L0: "0 < MaximumLevels" by (simp add: MaximumLevels_def)
  from inv L0 have ch: "chain (nodes s) 0 (Some ?H) (?H # xss ! 0) (m_End s)"
    and Hnot: "?H \<notin> set (xss ! 0)"
    and srt: "sorted_wrt lt (map (key_at s) (xss ! 0))"
    by (auto simp: skiplist_inv_def)
  from p obtain pre suf where dec: "?H # xss ! 0 = pre @ c # suf"
    and ck: "c = ?H \<or> lt (key_at s c) k"
    and sk: "suf = [] \<or> \<not> lt (key_at s (hd suf)) k"
    unfolding pred_at_def by blast
  have nn: "\<not> lt k k" using irr by (simp add: irreflp_def)
  have a_suf: "a \<in> set suf"
  proof (cases pre)
    case Nil
    then show ?thesis using dec a by auto
  next
    case (Cons h pre')
    then have xs: "xss ! 0 = pre' @ c # suf" and cH: "c \<noteq> ?H" using dec Hnot by auto
    then have clt: "lt (key_at s c) k" using ck by simp
    from srt xs have "\<forall>x \<in> set pre'. lt (key_at s x) (key_at s c)"
      by (auto simp: sorted_wrt_append)
    then have "a \<notin> set pre'" using clt ak nn tr by (auto dest: transpD)
    moreover have "a \<noteq> c" using clt ak nn by auto
    ultimately show ?thesis using a xs by auto
  qed
  then obtain y suf' where suf: "suf = y # suf'" by (cases suf) auto
  have sorted_suf: "sorted_wrt lt (map (key_at s) suf)"
  proof (cases pre)
    case Nil then show ?thesis using dec srt by auto
  next
    case (Cons h pre') then show ?thesis using dec srt by (auto simp: sorted_wrt_append)
  qed
  have "a = y"
  proof (rule ccontr)
    assume "a \<noteq> y"
    then have "a \<in> set suf'" using a_suf suf by simp
    then have "lt (key_at s y) (key_at s a)" using sorted_suf suf by auto
    then show False using sk suf ak by simp
  qed
  moreover from chain_split[of "nodes s" 0 "Some ?H" pre c suf "m_End s"] ch dec
  obtain n where "nodes s c = Some n" "chain (nodes s) 0 (m_ForwardPointers n ! 0) suf (m_End s)"
    by auto
  ultimately show ?thesis using suf by (auto simp: next_at_def)
qed


lemma chain_same_pointers:
  assumes "\<And>x. map_option m_ForwardPointers (h' x) = map_option m_ForwardPointers (h x)"
  shows "chain h' L p xs e = chain h L p xs e"
proof (induction xs arbitrary: p)
  case Nil
  show ?case by simp
next
  case (Cons x xs)
  from assms[of x] show ?case
    by (cases "h x"; cases "h' x") (auto simp: Cons.IH)
qed

lemma skiplist_inv_SetValue:
  assumes inv: "skiplist_inv lt s xss" and n: "nodes s a = Some n"
  shows "skiplist_inv lt (s\<lparr>nodes := (nodes s)(a \<mapsto> n\<lparr>m_KeyValue := (fst (m_KeyValue n), v)\<rparr>)\<rparr>) xss"
proof -
  let ?h' = "(nodes s)(a \<mapsto> n\<lparr>m_KeyValue := (fst (m_KeyValue n), v)\<rparr>)"
  let ?s' = "s\<lparr>nodes := ?h'\<rparr>"
  have ptrs: "\<And>x. map_option m_ForwardPointers (?h' x) = map_option m_ForwardPointers (nodes s x)"
    using n by simp
  have ch: "\<And>L p xs e. chain ?h' L p xs e = chain (nodes s) L p xs e"
    by (rule chain_same_pointers[OF ptrs])
  have keys: "key_at ?s' = key_at s"
    using n by (auto simp: key_at_def fun_eq_iff)
  have alloc: "\<And>b m. ?h' b = Some m \<Longrightarrow> \<exists>m'. nodes s b = Some m' \<and>
                 m_ForwardPointers m = m_ForwardPointers m'"
    using n by (auto split: if_splits)
  show ?thesis
    using inv n unfolding skiplist_inv_def
    by (auto simp: ch keys simp del: chain.simps)
qed

section \<open>Insert of a key that is present\<close>

text \<open>
  On a well-formed list, whose keys are strictly ascending under a transitive and
  irreflexive comparison \<open>lt\<close>, with \<open>operator==\<close> holding of \<open>k\<close> with itself, let \<open>a\<close>
  be a node on level 0 that stores the key \<open>k\<close>. Then \<open>Insert(k, v)\<close> returns, and
  the list afterwards is \<open>s\<close> with the value of the node at \<open>a\<close> replaced by \<open>v\<close>;
  it is well formed with the same sequence of nodes on every level. Lists built
  under a comparison whose equivalence is not \<open>operator==\<close> need not be ascending,
  and are not covered.
\<close>

lemma Insert_existing_key:
  assumes inv: "skiplist_inv lt s xss" and tr: "transp lt" and irr: "irreflp lt"
    and eq: "eq k k"
    and a: "a \<in> set (xss ! 0)" and n: "nodes s a = Some n" and k: "fst (m_KeyValue n) = k"
  shows "Insert lt eq coin k v s
           = Some (Inr (s\<lparr>nodes := (nodes s)(a \<mapsto> n\<lparr>m_KeyValue := (k, v)\<rparr>)\<rparr>)) \<and>
         skiplist_inv lt (s\<lparr>nodes := (nodes s)(a \<mapsto> n\<lparr>m_KeyValue := (k, v)\<rparr>)\<rparr>) xss"
proof -
  let ?H = "m_Header s"
  have HL: "m_HighestLevel s < MaximumLevels" using inv by (simp add: skiplist_inv_def)
  have start: "?H # xss ! m_HighestLevel s = [] @ ?H # xss ! m_HighestLevel s" by simp
  from Insert_levels_ok[OF inv HL _ start, of "replicate MaximumLevels None" k]
  obtain c0 ups' where r:
    "Insert_levels lt s (Outside, k) (m_HighestLevel s) (Some ?H) (replicate MaximumLevels None)
       = Some (Inr (Some c0, ups'))"
    "\<forall>M \<le> m_HighestLevel s. \<exists>cM. ups' ! M = Some cM \<and> pred_at lt s xss k M cM"
    "ups' ! 0 = Some c0"
    by auto
  from r(2,3) have p0: "pred_at lt s xss k 0 c0" by auto
  have ak: "key_at s a = k" using n k by (simp add: key_at_def)
  from pred_at_successor[OF inv tr irr p0 a ak]
  obtain m where m: "nodes s c0 = Some m" "m_ForwardPointers m ! 0 = Some a"
    by (auto simp: next_at_def)
  have len: "0 < length (m_ForwardPointers m)"
    using inv m(1) by (auto simp: skiplist_inv_def MaximumLevels_def)
  have "Insert lt eq coin k v s
          = Some (Inr (s\<lparr>nodes := (nodes s)(a \<mapsto> n\<lparr>m_KeyValue := (k, v)\<rparr>)\<rparr>))"
    using r(1) m len n k eq
    by (simp add: Insert_def and_then_def ok_bind_def GetForwardPointer_def GetKey_def
        deref_def SetValue_def)
  moreover have "skiplist_inv lt (s\<lparr>nodes := (nodes s)(a \<mapsto> n\<lparr>m_KeyValue := (k, v)\<rparr>)\<rparr>) xss"
    using skiplist_inv_SetValue[OF inv n, of v] k by simp
  ultimately show ?thesis by simp
qed


lemma Insert_existing_key_example:
  "and_then (Insert (<) (=) replay (5 :: int) ''a'' (SkipList_new 0 [] []))
     (\<lambda>s. and_then (Insert (<) (=) replay 5 ''b'' s)
        (\<lambda>s'. Some (Inr (s' = s\<lparr>nodes := (nodes s)
                  (2 \<mapsto> \<lparr>m_KeyValue = (5, ''b''),
                          m_ForwardPointers = (replicate 16 None)[0 := Some 1]\<rparr>)\<rparr>,
                GetSize s, GetSize s', next_free s, next_free s'))))
   = Some (Inr (True, 1, 1, 3, 3))"
proof -
  let ?n = "\<lparr>m_KeyValue = (5 :: int, ''a''), m_ForwardPointers = (replicate 16 None)[0 := Some 1]\<rparr>"
  define s1 :: "(int, string, bool list) SkipList" where
    "s1 = \<lparr>nodes = (\<lambda>_. None)
             (0 \<mapsto> \<lparr>m_KeyValue = (0, []), m_ForwardPointers = (replicate 16 (Some 1))[0 := Some 2]\<rparr>,
              1 \<mapsto> \<lparr>m_KeyValue = (0, []), m_ForwardPointers = replicate 16 None\<rparr>,
              2 \<mapsto> ?n),
           next_free = 3, m_Header = 0, m_End = 1, m_HighestLevel = 0,
           m_RandomGenerator = [], m_Size = 1\<rparr>"
  have run: "Insert (<) (=) replay (5 :: int) ''a'' (SkipList_new 0 [] []) = Some (Inr s1)"
    by (simp add: run_defs s1_def fun_eq_iff)
  have inv: "skiplist_inv (<) s1 ([2] # replicate 15 [])"
    by (auto simp: skiplist_inv_def s1_def MaximumLevels_def nth_Cons' key_at_def
        nth_list_update split: if_splits)
  have h: "transp ((<) :: int \<Rightarrow> int \<Rightarrow> bool)" "irreflp ((<) :: int \<Rightarrow> int \<Rightarrow> bool)"
    "(5 :: int) = 5" "(2 :: nat) \<in> set (([2] # replicate 15 []) ! 0)" "nodes s1 2 = Some ?n"
    "fst (m_KeyValue ?n) = 5"
    by (simp_all add: s1_def)
  from Insert_existing_key[where eq = "(=)" and k = 5 and coin = replay and v = "''b''",
      OF inv h(1) h(2) h(3) h(4) h(5) h(6)]
  show ?thesis using run by (simp add: and_then_def GetSize_def s1_def)
qed

text \<open>
  Claim C8. The comparison \<open>tens_less\<close> is a strict weak ordering under which 11
  and 12 are equivalent. After \<open>Insert(11, "a")\<close> and \<open>Insert(12, "b")\<close> the list
  holds the node of key 12 (address 3) in front of the node of key 11 (address
  2), with size 2. The key 11 is present, yet \<open>Insert(11, "c")\<close> does not overwrite
  the value of its node: the traversal stays on the header, the successor has key
  12, which \<open>operator==\<close> tells apart from 11, and a third node is allocated at
  address 4 and put in front. The node at address 2 still holds \<open>"a"\<close>, the size
  is 3 and \<open>next_free\<close> went from 4 to 5.
\<close>

theorem Insert_present_key_allocates:
  "and_then (Insert tens_less (=) replay 11 ''a'' (SkipList_new 0 [] []))
     (\<lambda>s1. and_then (Insert tens_less (=) replay 12 ''b'' s1)
        (\<lambda>s2. and_then (Insert tens_less (=) replay 11 ''c'' s2)
           (\<lambda>s3. Some (Inr
              (begin_iterator s2, GetForwardPointer s2 (Some 3) 0,
               map_option m_KeyValue (nodes s2 2), GetSize s2, next_free s2,
               begin_iterator s3, map_option m_KeyValue (nodes s3 4),
               map_option m_KeyValue (nodes s3 2), GetSize s3, next_free s3)))))
   = Some (Inr
       (Inr \<lparr>m_CurrentNode = Some 3\<rparr>, Inr (Some 2),
        Some (11, ''a''), 2, 4,
        Inr \<lparr>m_CurrentNode = Some 4\<rparr>, Some (11, ''c''),
        Some (11, ''a''), 3, 5))"
  by (simp add: run_defs tens_less_def)

section \<open>Insert keeps a list well formed\<close>

subsection \<open>Chains under changes of the store\<close>

lemma chain_frame:
  "(\<And>x. x \<in> set xs \<Longrightarrow> h' x = h x) \<Longrightarrow> chain h' L p xs e = chain h L p xs e"
  by (induction xs arbitrary: p) (auto split: option.splits)

lemma chain_frame_level:
  assumes "\<And>x. x \<in> set xs \<Longrightarrow> h x = None \<Longrightarrow> h' x = None"
    and "\<And>x n. x \<in> set xs \<Longrightarrow> h x = Some n \<Longrightarrow>
           \<exists>n'. h' x = Some n' \<and> length (m_ForwardPointers n') = length (m_ForwardPointers n) \<and>
                m_ForwardPointers n' ! L = m_ForwardPointers n ! L"
  shows "chain h' L p xs e = chain h L p xs e"
  using assms
proof (induction xs arbitrary: p)
  case Nil
  show ?case by simp
next
  case (Cons x xs)
  have IH: "\<And>p. chain h' L p xs e = chain h L p xs e"
    using Cons.IH Cons.prems by simp
  show ?case
  proof (cases "h x")
    case None
    then have "h' x = None" using Cons.prems(1)[of x] by simp
    with None show ?thesis by simp
  next
    case (Some n)
    with Cons.prems(2)[of x n] obtain n' where "h' x = Some n'"
      "length (m_ForwardPointers n') = length (m_ForwardPointers n)"
      "m_ForwardPointers n' ! L = m_ForwardPointers n ! L" by auto
    with Some show ?thesis by (simp add: IH)
  qed
qed

lemma chain_unique:
  "chain h L p xs e \<Longrightarrow> chain h L p ys e \<Longrightarrow> xs = ys"
proof (induction xs arbitrary: p ys)
  case Nil
  then show ?case by (cases ys) auto
next
  case (Cons x xs)
  then show ?case by (cases ys) (auto split: option.splits)
qed

lemma chain_distinct:
  "chain h L p xs e \<Longrightarrow> distinct xs"
proof (induction xs arbitrary: p)
  case Nil
  show ?case by simp
next
  case (Cons x xs)
  then obtain n where n: "h x = Some n" "chain h L (m_ForwardPointers n ! L) xs e"
    by (auto split: option.splits)
  have "x \<notin> set xs"
  proof
    assume "x \<in> set xs"
    then obtain as bs where xs: "xs = as @ x # bs" by (meson split_list)
    from chain_split[of h L "m_ForwardPointers n ! L" as x bs e] n xs
    have "chain h L (m_ForwardPointers n ! L) bs e" by auto
    with n(2) have "xs = bs" by (rule chain_unique)
    with xs show False by simp
  qed
  moreover have "distinct xs" using Cons.IH n(2) by blast
  ultimately show ?case by simp
qed

text \<open>One splice on one level, on the store.\<close>

lemma chain_splice:
  assumes ch: "chain h L p (pre @ c # suf) e"
    and new: "new \<notin> set (pre @ c # suf)" "new \<noteq> e"
    and nn: "h new = Some nn" "L < length (m_ForwardPointers nn)"
    and nc: "h c = Some nc"
  shows "chain
           (h(new \<mapsto> nn\<lparr>m_ForwardPointers := (m_ForwardPointers nn)[L := m_ForwardPointers nc ! L]\<rparr>,
              c \<mapsto> nc\<lparr>m_ForwardPointers := (m_ForwardPointers nc)[L := Some new]\<rparr>))
           L p (pre @ c # new # suf) e"
proof -
  define h2 where "h2 = h(new \<mapsto> nn\<lparr>m_ForwardPointers := (m_ForwardPointers nn)[L := m_ForwardPointers nc ! L]\<rparr>,
              c \<mapsto> nc\<lparr>m_ForwardPointers := (m_ForwardPointers nc)[L := Some new]\<rparr>)"
  have dist: "distinct (pre @ c # suf)" using ch by (rule chain_distinct)
  have h2c: "h2 c = Some (nc\<lparr>m_ForwardPointers := (m_ForwardPointers nc)[L := Some new]\<rparr>)"
    by (simp add: h2_def)
  have h2new: "h2 new = Some (nn\<lparr>m_ForwardPointers := (m_ForwardPointers nn)[L := m_ForwardPointers nc ! L]\<rparr>)"
    using new by (auto simp: h2_def)
  have h2other: "\<And>x. x \<noteq> c \<Longrightarrow> x \<noteq> new \<Longrightarrow> h2 x = h x"
    by (simp add: h2_def)
  have "chain h2 L p (pre @ c # new # suf) e"
    using ch new dist
  proof (induction pre arbitrary: p)
    case Nil
    then have c: "p = Some c" "c \<noteq> e" "L < length (m_ForwardPointers nc)"
      "chain h L (m_ForwardPointers nc ! L) suf e"
      using nc by auto
    have "chain h2 L (m_ForwardPointers nc ! L) suf e = chain h L (m_ForwardPointers nc ! L) suf e"
      using Nil.prems by (intro chain_frame h2other) auto
    then show ?case using c Nil.prems(3) nn h2c h2new by simp
  next
    case (Cons x pre)
    then obtain n where n: "p = Some x" "x \<noteq> e" "h x = Some n" "L < length (m_ForwardPointers n)"
      "chain h L (m_ForwardPointers n ! L) (pre @ c # suf) e"
      by (auto split: option.splits)
    have "chain h2 L (m_ForwardPointers n ! L) (pre @ c # new # suf) e"
      using Cons.IH[OF n(5)] Cons.prems by auto
    moreover have "h2 x = Some n" using Cons.prems n h2other[of x] by auto
    ultimately show ?case using n by simp
  qed
  then show ?thesis by (simp add: h2_def)
qed


declare ins_after.simps [simp del]

lemma ins_after_decomp:
  "c \<notin> set pre \<Longrightarrow> ins_after c new (pre @ c # suf) = pre @ c # new # suf"
  by (induction pre) (auto simp: ins_after.simps)

lemma GetForwardPointer_eq:
  "nodes s a = Some n \<Longrightarrow> L < length (m_ForwardPointers n) \<Longrightarrow>
     GetForwardPointer s (Some a) L = Inr (m_ForwardPointers n ! L)"
  by (simp add: GetForwardPointer_def deref_def)

lemma SetForwardPointer_eq:
  "nodes s a = Some n \<Longrightarrow> L < length (m_ForwardPointers n) \<Longrightarrow>
     SetForwardPointer s (Some a) L q
       = Inr (s\<lparr>nodes := (nodes s)(a \<mapsto> n\<lparr>m_ForwardPointers := (m_ForwardPointers n)[L := q]\<rparr>)\<rparr>)"
  by (simp add: SetForwardPointer_def deref_def)

lemma only_level_refl: "only_level L h h"
  by (simp add: only_level_def split: option.splits)

lemma only_level_None:
  "only_level L h h' \<Longrightarrow> h x = None \<Longrightarrow> h' x = None"
  unfolding only_level_def by (drule spec[of _ x]) simp

lemma only_level_Some:
  "only_level L h h' \<Longrightarrow> h x = Some n \<Longrightarrow>
     \<exists>n'. h' x = Some n' \<and> m_KeyValue n' = m_KeyValue n \<and>
          length (m_ForwardPointers n') = length (m_ForwardPointers n) \<and>
          (\<forall>M. M \<noteq> L \<longrightarrow> m_ForwardPointers n' ! M = m_ForwardPointers n ! M)"
  unfolding only_level_def by (drule spec[of _ x]) simp

lemma only_level_key:
  assumes "only_level L (nodes s) (nodes s')"
  shows "key_at s' = key_at s"
proof (rule ext)
  fix a
  show "key_at s' a = key_at s a"
  proof (cases "nodes s a")
    case None
    with only_level_None[OF assms, of a] show ?thesis by (simp add: key_at_def)
  next
    case (Some n)
    with only_level_Some[OF assms, of a n] show ?thesis by (auto simp: key_at_def)
  qed
qed

lemma only_level_chain:
  assumes "only_level L h h'" and "M \<noteq> L"
  shows "chain h' M p xs e = chain h M p xs e"
proof (rule chain_frame_level)
  fix x assume "h x = None"
  then show "h' x = None" using only_level_None[OF assms(1)] by simp
next
  fix x n assume "h x = Some n"
  with only_level_Some[OF assms(1), of x n] assms(2)
  show "\<exists>n'. h' x = Some n' \<and> length (m_ForwardPointers n') = length (m_ForwardPointers n) \<and>
                m_ForwardPointers n' ! M = m_ForwardPointers n ! M"
    by auto
qed


lemma sorted_wrt_insert_between:
  assumes tr: "transp lt"
    and srt: "sorted_wrt lt (map f (as @ bs))"
    and lo: "as = [] \<or> lt (f (last as)) k"
    and hi: "bs = [] \<or> lt k (f (hd bs))"
    and fn: "f new = k"
  shows "sorted_wrt lt (map f (as @ new # bs))"
proof -
  have a: "\<forall>x \<in> set as. lt (f x) k"
  proof
    fix x assume x: "x \<in> set as"
    then have ne: "as \<noteq> []" by auto
    with lo have l: "lt (f (last as)) k" by simp
    show "lt (f x) k"
    proof (cases "x = last as")
      case True with l show ?thesis by simp
    next
      case False
      with x ne have "x \<in> set (butlast as)"
        by (metis append_butlast_last_id rotate1.simps(2) set_ConsD set_rotate1)
      moreover have "sorted_wrt lt (map f (butlast as @ [last as]))"
        using srt ne by (simp add: sorted_wrt_append)
      ultimately have "lt (f x) (f (last as))" by (auto simp: sorted_wrt_append)
      with l tr show ?thesis by (auto dest: transpD)
    qed
  qed
  have b: "\<forall>y \<in> set bs. lt k (f y)"
  proof
    fix y assume y: "y \<in> set bs"
    then obtain b bs' where bs: "bs = b # bs'" by (cases bs) auto
    with hi have l: "lt k (f b)" by simp
    show "lt k (f y)"
    proof (cases "y = b")
      case True with l show ?thesis by simp
    next
      case False
      with y bs have "y \<in> set bs'" by simp
      with srt bs have "lt (f b) (f y)" by (auto simp: sorted_wrt_append)
      with l tr show ?thesis by (auto dest: transpD)
    qed
  qed
  show ?thesis using srt a b fn by (auto simp: sorted_wrt_append)
qed

lemma splice_level:
  assumes lv: "level_ok lt s L xs"
    and ip: "ins_point lt s k xs c"
    and new: "new \<notin> set xs" "new \<noteq> m_Header s" "new \<noteq> m_End s"
    and nn: "nodes s new = Some nn" "L < length (m_ForwardPointers nn)" "fst (m_KeyValue nn) = k"
    and tr: "transp lt"
  shows "\<exists>r s1 s2 h2. GetForwardPointer s (Some c) L = Inr r \<and>
           SetForwardPointer s (Some new) L r = Inr s1 \<and>
           SetForwardPointer s1 (Some c) L (Some new) = Inr s2 \<and>
           s2 = s\<lparr>nodes := h2\<rparr> \<and> only_level L (nodes s) h2 \<and>
           level_ok lt s2 L (tl (ins_after c new (m_Header s # xs)))"
proof -
  let ?H = "m_Header s" and ?E = "m_End s"
  from ip obtain pre suf where dec: "?H # xs = pre @ c # suf"
    and ck: "c = ?H \<or> lt (key_at s c) k"
    and sk: "suf = [] \<or> lt k (key_at s (hd suf))"
    unfolding ins_point_def by blast
  from lv have ch: "chain (nodes s) L (Some ?H) (pre @ c # suf) ?E"
    and Hn: "?H \<notin> set xs" and srt: "sorted_wrt lt (map (key_at s) xs)"
    unfolding level_ok_def dec by auto
  from chain_split[OF ch] obtain nc where nc: "nodes s c = Some nc" "c \<noteq> ?E"
    "L < length (m_ForwardPointers nc)" by auto
  have newpre: "new \<notin> set (pre @ c # suf)" using new dec by (metis set_ConsD)
  then have cnew: "c \<noteq> new" by auto
  define h1 where "h1 = (nodes s)(new \<mapsto> nn\<lparr>m_ForwardPointers :=
                      (m_ForwardPointers nn)[L := m_ForwardPointers nc ! L]\<rparr>)"
  define h2 where "h2 = h1(c \<mapsto> nc\<lparr>m_ForwardPointers := (m_ForwardPointers nc)[L := Some new]\<rparr>)"
  have g: "GetForwardPointer s (Some c) L = Inr (m_ForwardPointers nc ! L)"
    using nc by (simp add: GetForwardPointer_eq)
  have s1: "SetForwardPointer s (Some new) L (m_ForwardPointers nc ! L) = Inr (s\<lparr>nodes := h1\<rparr>)"
    using nn by (simp add: SetForwardPointer_eq h1_def)
  have h1c: "nodes (s\<lparr>nodes := h1\<rparr>) c = Some nc" using cnew nc by (simp add: h1_def)
  have s2: "SetForwardPointer (s\<lparr>nodes := h1\<rparr>) (Some c) L (Some new) = Inr (s\<lparr>nodes := h2\<rparr>)"
    using SetForwardPointer_eq[OF h1c nc(3), of "Some new"] by (simp add: h2_def)
  have ol: "only_level L (nodes s) h2"
    unfolding only_level_def
  proof
    fix x
    show "case nodes s x of None \<Rightarrow> h2 x = None
          | Some n \<Rightarrow> \<exists>n'. h2 x = Some n' \<and> m_KeyValue n' = m_KeyValue n \<and>
               length (m_ForwardPointers n') = length (m_ForwardPointers n) \<and>
               (\<forall>M. M \<noteq> L \<longrightarrow> m_ForwardPointers n' ! M = m_ForwardPointers n ! M)"
      using nc nn cnew by (cases "x = c"; cases "x = new") (auto simp: h2_def h1_def split: option.splits)
  qed
  have ch2: "chain h2 L (Some ?H) (pre @ c # new # suf) ?E"
    unfolding h2_def h1_def using chain_splice[OF ch newpre new(3) nn(1) nn(2) nc(1)] .
  have cpre: "c \<notin> set pre" using chain_distinct[OF ch] by simp
  have ia: "ins_after c new (?H # xs) = pre @ c # new # suf"
    unfolding dec using cpre by (rule ins_after_decomp)
  have keys: "key_at (s\<lparr>nodes := h2\<rparr>) = key_at s"
    using only_level_key[of L s "s\<lparr>nodes := h2\<rparr>"] ol by simp
  have knew: "key_at s new = k" using nn by (simp add: key_at_def)
  have "level_ok lt (s\<lparr>nodes := h2\<rparr>) L (tl (pre @ c # new # suf))"
  proof (cases pre)
    case Nil
    then have c: "c = ?H" "xs = suf" using dec by auto
    have "sorted_wrt lt (map (key_at s) ([] @ new # suf))"
      using srt sk knew c by (intro sorted_wrt_insert_between[OF tr, of _ _ _ k]) auto
    then show ?thesis using Nil c ch2 Hn new keys by (simp add: level_ok_def)
  next
    case (Cons h pre')
    then have h: "h = ?H" "xs = pre' @ c # suf" using dec by auto
    then have cH: "c \<noteq> ?H" using Hn by auto
    have "sorted_wrt lt (map (key_at s) ((pre' @ [c]) @ new # suf))"
      using srt sk knew h ck cH by (intro sorted_wrt_insert_between[OF tr, of _ _ _ k]) auto
    then show ?thesis using Cons h ch2 Hn new keys by (simp add: level_ok_def)
  qed
  with g s1 s2 ol ia show ?thesis by auto
qed


lemma level_ok_only_level:
  assumes "only_level L (nodes s) h'" and "M \<noteq> L"
  shows "level_ok lt (s\<lparr>nodes := h'\<rparr>) M xs = level_ok lt s M xs"
proof -
  have "key_at (s\<lparr>nodes := h'\<rparr>) = key_at s"
    using only_level_key[of L s "s\<lparr>nodes := h'\<rparr>"] assms(1) by simp
  moreover have "\<And>p ys e. chain h' M p ys e = chain (nodes s) M p ys e"
    using only_level_chain[OF assms] .
  ultimately show ?thesis by (simp add: level_ok_def del: chain.simps)
qed

lemma ins_point_only_level:
  assumes "only_level L (nodes s) h'"
  shows "ins_point lt (s\<lparr>nodes := h'\<rparr>) k xs c = ins_point lt s k xs c"
proof -
  have "key_at (s\<lparr>nodes := h'\<rparr>) = key_at s"
    using only_level_key[of L s "s\<lparr>nodes := h'\<rparr>"] assms(1) by simp
  then show ?thesis by (simp add: ins_point_def)
qed

lemma Insert_splice_ok:
  assumes tr: "transp lt" and hi: "hi < MaximumLevels" and ups: "length ups = MaximumLevels"
    and L: "L \<le> Suc hi"
    and sent: "new \<noteq> m_Header s" "new \<noteq> m_End s"
    and nn: "nodes s new = Some nn" "length (m_ForwardPointers nn) = MaximumLevels"
      "fst (m_KeyValue nn) = k"
    and lv: "\<forall>M<MaximumLevels. level_ok lt s M (yss M)"
    and ip: "\<forall>M. L \<le> M \<and> M \<le> hi \<longrightarrow>
               new \<notin> set (yss M) \<and> (\<exists>c. ups ! M = Some c \<and> ins_point lt s k (yss M) c)"
  shows "\<exists>h'. Insert_splice hi ups (Some new) L s = Inr (s\<lparr>nodes := h'\<rparr>) \<and>
           (\<forall>x. nodes s x = None \<longrightarrow> h' x = None) \<and>
           (\<forall>x n. nodes s x = Some n \<longrightarrow>
              (\<exists>n'. h' x = Some n' \<and> m_KeyValue n' = m_KeyValue n \<and>
                    length (m_ForwardPointers n') = length (m_ForwardPointers n))) \<and>
           (\<forall>M<MaximumLevels. level_ok lt (s\<lparr>nodes := h'\<rparr>) M
               (if L \<le> M \<and> M \<le> hi
                then tl (ins_after (the (ups ! M)) new (m_Header s # yss M)) else yss M))"
  using L sent nn lv ip
proof (induction "Suc hi - L" arbitrary: L s yss nn)
  case 0
  then have "\<not> L \<le> hi" by simp
  then have "Insert_splice hi ups (Some new) L s = Inr (s\<lparr>nodes := nodes s\<rparr>)"
    by (subst Insert_splice.simps) simp
  moreover have "\<forall>M<MaximumLevels. level_ok lt (s\<lparr>nodes := nodes s\<rparr>) M
               (if L \<le> M \<and> M \<le> hi
                then tl (ins_after (the (ups ! M)) new (m_Header s # yss M)) else yss M)"
    using "0.prems"(7) \<open>\<not> L \<le> hi\<close> by auto
  ultimately show ?case by (intro exI[of _ "nodes s"]) simp
next
  case (Suc d)
  then have Lhi: "L \<le> hi" by simp
  then have LM: "L < MaximumLevels" using hi by simp
  from Suc.prems(8) Lhi obtain c where c: "ups ! L = Some c" "ins_point lt s k (yss L) c"
    and newL: "new \<notin> set (yss L)" by auto
  have lvL: "level_ok lt s L (yss L)" using Suc.prems(7) LM by simp
  have lenL: "L < length (m_ForwardPointers nn)" using Suc.prems(5) LM by simp
  from splice_level[OF lvL c(2) newL Suc.prems(2) Suc.prems(3) Suc.prems(4) lenL Suc.prems(6) tr]
  obtain r s1 h2 where st: "GetForwardPointer s (Some c) L = Inr r"
    "SetForwardPointer s (Some new) L r = Inr s1"
    "SetForwardPointer s1 (Some c) L (Some new) = Inr (s\<lparr>nodes := h2\<rparr>)"
    "only_level L (nodes s) h2"
    "level_ok lt (s\<lparr>nodes := h2\<rparr>) L (tl (ins_after c new (m_Header s # yss L)))"
    by blast
  let ?s2 = "s\<lparr>nodes := h2\<rparr>"
  define yss' where "yss' = yss(L := tl (ins_after c new (m_Header s # yss L)))"
  from only_level_Some[OF st(4) Suc.prems(4)] obtain nn' where nn': "h2 new = Some nn'"
    "m_KeyValue nn' = m_KeyValue nn" "length (m_ForwardPointers nn') = length (m_ForwardPointers nn)"
    by blast
  have a1: "Suc L \<le> Suc hi" using Lhi by simp
  have a2: "d = Suc hi - Suc L" using Suc.hyps(2) by simp
  have a3: "new \<noteq> m_Header ?s2" "new \<noteq> m_End ?s2" using Suc.prems(2,3) by simp_all
  have a4: "nodes ?s2 new = Some nn'" "length (m_ForwardPointers nn') = MaximumLevels"
    "fst (m_KeyValue nn') = k"
    using nn' Suc.prems(5,6) by simp_all
  have a5: "\<forall>M<MaximumLevels. level_ok lt ?s2 M (yss' M)"
  proof (intro allI impI)
    fix M assume "M < MaximumLevels"
    then show "level_ok lt ?s2 M (yss' M)"
      using st(5) Suc.prems(7) level_ok_only_level[OF st(4), of M lt]
      by (cases "M = L") (auto simp: yss'_def)
  qed
  have a6: "\<forall>M. Suc L \<le> M \<and> M \<le> hi \<longrightarrow>
               new \<notin> set (yss' M) \<and> (\<exists>c. ups ! M = Some c \<and> ins_point lt ?s2 k (yss' M) c)"
    using Suc.prems(8) ins_point_only_level[OF st(4), of lt k]
    by (auto simp: yss'_def)
  from Suc.hyps(1)[OF a2 a1 a3 a4 a5 a6]
  obtain h' where h': "Insert_splice hi ups (Some new) (Suc L) ?s2 = Inr (?s2\<lparr>nodes := h'\<rparr>)"
    "\<forall>x. nodes ?s2 x = None \<longrightarrow> h' x = None"
    "\<forall>x n. nodes ?s2 x = Some n \<longrightarrow>
              (\<exists>n'. h' x = Some n' \<and> m_KeyValue n' = m_KeyValue n \<and>
                    length (m_ForwardPointers n') = length (m_ForwardPointers n))"
    "\<forall>M<MaximumLevels. level_ok lt (?s2\<lparr>nodes := h'\<rparr>) M
               (if Suc L \<le> M \<and> M \<le> hi
                then tl (ins_after (the (ups ! M)) new (m_Header ?s2 # yss' M)) else yss' M)"
    by blast
  have run: "Insert_splice hi ups (Some new) L s = Inr (s\<lparr>nodes := h'\<rparr>)"
    using Lhi c(1) st(1,2,3) h'(1) ups LM
    by (subst Insert_splice.simps) (simp add: at_def)
  have d1: "\<forall>x. nodes s x = None \<longrightarrow> h' x = None"
    using h'(2) only_level_None[OF st(4)] by simp
  have d2: "\<forall>x n. nodes s x = Some n \<longrightarrow>
              (\<exists>n'. h' x = Some n' \<and> m_KeyValue n' = m_KeyValue n \<and>
                    length (m_ForwardPointers n') = length (m_ForwardPointers n))"
  proof (intro allI impI)
    fix x n assume "nodes s x = Some n"
    from only_level_Some[OF st(4) this] obtain m where m: "h2 x = Some m"
      "m_KeyValue m = m_KeyValue n" "length (m_ForwardPointers m) = length (m_ForwardPointers n)"
      by blast
    with h'(3) show "\<exists>n'. h' x = Some n' \<and> m_KeyValue n' = m_KeyValue n \<and>
                    length (m_ForwardPointers n') = length (m_ForwardPointers n)"
      by (metis SkipList.select_convs(1) SkipList.surjective SkipList.update_convs(1))
  qed
  have d3: "\<forall>M<MaximumLevels. level_ok lt (s\<lparr>nodes := h'\<rparr>) M
               (if L \<le> M \<and> M \<le> hi
                then tl (ins_after (the (ups ! M)) new (m_Header s # yss M)) else yss M)"
  proof (intro allI impI)
    fix M assume M: "M < MaximumLevels"
    from h'(4)[rule_format, OF M] have "level_ok lt (s\<lparr>nodes := h'\<rparr>) M
               (if Suc L \<le> M \<and> M \<le> hi
                then tl (ins_after (the (ups ! M)) new (m_Header s # yss' M)) else yss' M)"
      by (simp cong: if_cong)
    then show "level_ok lt (s\<lparr>nodes := h'\<rparr>) M
               (if L \<le> M \<and> M \<le> hi
                then tl (ins_after (the (ups ! M)) new (m_Header s # yss M)) else yss M)"
      using c(1) Lhi by (cases "M = L") (auto simp: yss'_def)
  qed
  from run d1 d2 d3 show ?case by blast
qed


lemma GetRandomLevel_loop_bound:
  "CurrentLevel < MaximumLevels \<Longrightarrow>
     fst (GetRandomLevel_loop coin g CurrentLevel) < MaximumLevels"
proof (induction coin g CurrentLevel rule: GetRandomLevel_loop.induct)
  case (1 coin g CurrentLevel)
  obtain heads g' where c: "coin g = (heads, g')" by (cases "coin g")
  show ?case
  proof (cases "heads \<and> CurrentLevel < MaximumLevels - 1")
    case True
    then have "CurrentLevel + 1 < MaximumLevels" by linarith
    with "1.IH"[OF c[symmetric] True] show ?thesis
      using c True by (subst GetRandomLevel_loop.simps) simp
  next
    case False
    then show ?thesis using c "1.prems" by (subst GetRandomLevel_loop.simps) auto
  qed
qed

lemma GetRandomLevel_bound:
  "fst (GetRandomLevel coin g) < MaximumLevels"
  unfolding GetRandomLevel_def
  by (rule GetRandomLevel_loop_bound) (simp add: MaximumLevels_def)

lemma Insert_raise_ok:
  assumes "hi < MaximumLevels" and "length ups = MaximumLevels" and "L \<le> Suc hi"
  shows "\<exists>ups'. Insert_raise hi p L ups = Inr ups' \<and> length ups' = MaximumLevels \<and>
           (\<forall>M. ups' ! M = (if L \<le> M \<and> M \<le> hi then p else ups ! M))"
  using assms(2,3)
proof (induction "Suc hi - L" arbitrary: L ups)
  case 0
  then have "\<not> L \<le> hi" by simp
  then show ?case using "0.prems" by (subst Insert_raise.simps) auto
next
  case (Suc d)
  then have Lhi: "L \<le> hi" by simp
  then have LM: "L < length ups" using assms(1) Suc.prems by simp
  have "d = Suc hi - Suc L" using Suc.hyps(2) by simp
  from Suc.hyps(1)[OF this, of "ups[L := p]"] Lhi Suc.prems
  obtain ups' where u: "Insert_raise hi p (Suc L) (ups[L := p]) = Inr ups'"
    "length ups' = MaximumLevels"
    "\<forall>M. ups' ! M = (if Suc L \<le> M \<and> M \<le> hi then p else (ups[L := p]) ! M)"
    by auto
  have "Insert_raise hi p L ups = Inr ups'"
    using Lhi LM u(1) by (subst Insert_raise.simps) (simp add: at_put_def)
  moreover have "\<forall>M. ups' ! M = (if L \<le> M \<and> M \<le> hi then p else ups ! M)"
    using u(3) LM Lhi by (auto simp: nth_list_update)
  ultimately show ?case using u(2) by blast
qed

lemma skiplist_inv_level_ok:
  "skiplist_inv lt s xss \<longleftrightarrow>
     m_Header s \<noteq> m_End s \<and> m_HighestLevel s < MaximumLevels \<and> length xss = MaximumLevels \<and>
     nodes s (m_End s) \<noteq> None \<and>
     (\<forall>a n. nodes s a = Some n \<longrightarrow>
        a < next_free s \<and> length (m_ForwardPointers n) = MaximumLevels) \<and>
     (\<forall>L < MaximumLevels. level_ok lt s L (xss ! L)) \<and>
     (\<forall>L. Suc L < MaximumLevels \<longrightarrow> set (xss ! Suc L) \<subseteq> set (xss ! L)) \<and>
     (\<forall>L. m_HighestLevel s < L \<and> L < MaximumLevels \<longrightarrow> xss ! L = [])"
  unfolding skiplist_inv_def level_ok_def by blast

lemma level_ok_cong:
  assumes "m_Header s' = m_Header s" and "m_End s' = m_End s"
    and "\<And>x. x \<in> set (m_Header s # xs) \<Longrightarrow> nodes s' x = nodes s x"
  shows "level_ok lt s' M xs = level_ok lt s M xs"
proof -
  have ch: "chain (nodes s') M (Some (m_Header s)) (m_Header s # xs) (m_End s)
          = chain (nodes s) M (Some (m_Header s)) (m_Header s # xs) (m_End s)"
    using assms(3) by (intro chain_frame) auto
  have km: "map (key_at s') xs = map (key_at s) xs"
    using assms(3) by (auto simp: key_at_def)
  show ?thesis unfolding level_ok_def assms(1) assms(2) ch km by (rule refl)
qed

lemma level_ok_allocated:
  "level_ok lt s M xs \<Longrightarrow> x \<in> set (m_Header s # xs) \<Longrightarrow> nodes s x \<noteq> None \<and> x \<noteq> m_End s"
  unfolding level_ok_def using chain_mem by fastforce

lemma set_tl_ins_after:
  assumes "c \<in> set (H # xs)" and "H \<notin> set xs"
  shows "set (tl (ins_after c new (H # xs))) = insert new (set xs)"
proof -
  from assms(1) obtain pre suf where dec: "H # xs = pre @ c # suf" "c \<notin> set pre"
    by (meson split_list_first)
  then have ia: "ins_after c new (H # xs) = pre @ c # new # suf"
    by (simp add: ins_after_decomp)
  show ?thesis
  proof (cases pre)
    case Nil
    with dec ia show ?thesis by auto
  next
    case (Cons h pre')
    with dec have "xs = pre' @ c # suf" by simp
    with ia Cons show ?thesis by auto
  qed
qed

lemma ins_point_mem:
  "ins_point lt s k xs c \<Longrightarrow> c \<in> set (m_Header s # xs)"
  unfolding ins_point_def by (metis in_set_conv_decomp)


lemma ins_point_cong:
  assumes "m_Header s' = m_Header s"
    and "\<And>x. x \<in> set (m_Header s # xs) \<Longrightarrow> key_at s' x = key_at s x"
    and "ins_point lt s k xs c"
  shows "ins_point lt s' k xs c"
proof -
  from assms(3) obtain pre suf where dec: "m_Header s # xs = pre @ c # suf"
    and ck: "c = m_Header s \<or> lt (key_at s c) k"
    and sk: "suf = [] \<or> lt k (key_at s (hd suf))"
    unfolding ins_point_def by blast
  have "c \<in> set (m_Header s # xs)" unfolding dec by simp
  then have kc: "key_at s' c = key_at s c" by (rule assms(2))
  have ks: "suf \<noteq> [] \<Longrightarrow> key_at s' (hd suf) = key_at s (hd suf)"
  proof -
    assume "suf \<noteq> []"
    then have "hd suf \<in> set (m_Header s # xs)" unfolding dec by simp
    then show ?thesis by (rule assms(2))
  qed
  show ?thesis unfolding ins_point_def assms(1)
  proof (rule exI[of _ pre], rule exI[of _ suf])
    show "m_Header s # xs = pre @ c # suf \<and>
          (c = m_Header s \<or> lt (key_at s' c) k) \<and> (suf = [] \<or> lt k (key_at s' (hd suf)))"
      using dec ck sk kc ks by (cases "suf = []") auto
  qed
qed

lemma subset_level0:
  assumes "skiplist_inv lt s xss"
  shows "M < MaximumLevels \<Longrightarrow> set (xss ! M) \<subseteq> set (xss ! 0)"
proof (induction M)
  case 0
  show ?case by simp
next
  case (Suc M)
  then have "set (xss ! Suc M) \<subseteq> set (xss ! M)"
    using assms by (simp add: skiplist_inv_def)
  with Suc show ?case by auto
qed

lemma pred_at_ins_point:
  assumes inv: "skiplist_inv lt s xss" and tr: "transp lt"
    and p0: "pred_at lt s xss k 0 c0"
    and succ: "\<And>y. y \<in> set (xss ! 0) \<Longrightarrow> next_at s 0 c0 = Some y \<Longrightarrow> lt k (key_at s y)"
    and pM: "pred_at lt s xss k M c" and M: "M < MaximumLevels"
  shows "ins_point lt s k (xss ! M) c"
proof -
  let ?H = "m_Header s"
  from pM obtain pre suf where dec: "?H # xss ! M = pre @ c # suf"
    and ck: "c = ?H \<or> lt (key_at s c) k"
    and sk: "suf = [] \<or> \<not> lt (key_at s (hd suf)) k"
    unfolding pred_at_def by blast
  have "suf = [] \<or> lt k (key_at s (hd suf))"
  proof (cases suf)
    case Nil
    then show ?thesis by simp
  next
    case (Cons y suf')
    then have nlt: "\<not> lt (key_at s y) k" using sk by simp
    have "y \<in> set (xss ! M)"
    proof (cases pre)
      case Nil with dec Cons show ?thesis by auto
    next
      case (Cons h pre') with dec \<open>suf = y # suf'\<close> show ?thesis by auto
    qed
    then have y0: "y \<in> set (xss ! 0)" using subset_level0[OF inv M] by auto
    have L0: "0 < MaximumLevels" by (simp add: MaximumLevels_def)
    from inv L0 have ch: "chain (nodes s) 0 (Some ?H) (?H # xss ! 0) (m_End s)"
      and Hnot: "?H \<notin> set (xss ! 0)"
      and srt: "sorted_wrt lt (map (key_at s) (xss ! 0))"
      by (auto simp: skiplist_inv_def)
    from p0 obtain pre0 suf0 where dec0: "?H # xss ! 0 = pre0 @ c0 # suf0"
      and c0k: "c0 = ?H \<or> lt (key_at s c0) k"
      unfolding pred_at_def by blast
    have ysuf: "y \<in> set suf0"
    proof (cases pre0)
      case Nil
      then show ?thesis using dec0 y0 by auto
    next
      case (Cons h pre')
      then have xs: "xss ! 0 = pre' @ c0 # suf0" and cH: "c0 \<noteq> ?H" using dec0 Hnot by auto
      then have clt: "lt (key_at s c0) k" using c0k by simp
      from srt xs have "\<forall>x \<in> set pre'. lt (key_at s x) (key_at s c0)"
        by (auto simp: sorted_wrt_append)
      then have "y \<notin> set pre'" using clt nlt tr by (auto dest: transpD)
      moreover have "y \<noteq> c0" using clt nlt by auto
      ultimately show ?thesis using y0 xs by auto
    qed
    then obtain y1 suf1 where suf0: "suf0 = y1 # suf1" by (cases suf0) auto
    have sorted_suf: "sorted_wrt lt (map (key_at s) suf0)"
    proof (cases pre0)
      case Nil then show ?thesis using dec0 srt by auto
    next
      case (Cons h pre') then show ?thesis using dec0 srt by (auto simp: sorted_wrt_append)
    qed
    from chain_split[of "nodes s" 0 "Some ?H" pre0 c0 suf0 "m_End s"] ch dec0
    obtain n where "nodes s c0 = Some n" "chain (nodes s) 0 (m_ForwardPointers n ! 0) suf0 (m_End s)"
      by auto
    then have nx: "next_at s 0 c0 = Some y1" using suf0 by (simp add: next_at_def)
    have "y1 \<in> set (xss ! 0)"
    proof (cases pre0)
      case Nil with dec0 suf0 show ?thesis by auto
    next
      case (Cons h pre') with dec0 suf0 show ?thesis by auto
    qed
    from succ[OF this nx] have k1: "lt k (key_at s y1)" .
    have "lt k (key_at s y)"
    proof (cases "y = y1")
      case True with k1 show ?thesis by simp
    next
      case False
      with ysuf suf0 have "y \<in> set suf1" by simp
      with sorted_suf suf0 have "lt (key_at s y1) (key_at s y)" by auto
      with k1 tr show ?thesis by (auto dest: transpD)
    qed
    then show ?thesis using Cons by simp
  qed
  with dec ck show ?thesis unfolding ins_point_def by blast
qed

lemma skiplist_inv_new:
  "skiplist_inv lt (SkipList_new DefaultKey DefaultValue g) (replicate MaximumLevels [])"
  by (auto simp: skiplist_inv_def SkipList_new_def NodeType_new_def MaximumLevels_def
      split: if_splits)

subsection \<open>The whole operation\<close>

text \<open>
  On a well-formed list, under a transitive comparison \<open>lt\<close> and an \<open>operator==\<close>
  such that two keys are ordered one way or the other unless \<open>eq\<close> holds of them,
  \<open>Insert\<close> returns without an error, and the list it leaves is well formed. The
  fresh list is well formed, so every list built by insertions is.
\<close>

lemma key_at_size [simp]: "key_at (s\<lparr>m_Size := n\<rparr>) = key_at s"
  by (simp add: key_at_def fun_eq_iff)

lemma skiplist_inv_size [simp]:
  "skiplist_inv lt (s\<lparr>m_Size := n\<rparr>) xss = skiplist_inv lt s xss"
  by (simp add: skiplist_inv_def del: chain.simps)

lemma Insert_preserves_inv:
  assumes inv: "skiplist_inv lt s xss" and tr: "transp lt"
    and tri: "\<And>x y. \<not> lt x y \<Longrightarrow> \<not> eq x y \<Longrightarrow> lt y x"
  shows "\<exists>s' xss'. Insert lt eq coin k v s = Some (Inr s') \<and> skiplist_inv lt s' xss'"
proof -
  let ?H = "m_Header s" and ?E = "m_End s"
  have HL: "m_HighestLevel s < MaximumLevels" and HE: "?H \<noteq> ?E"
    and Eok: "nodes s ?E \<noteq> None"
    and alloc: "\<And>a n. nodes s a = Some n \<Longrightarrow>
                  a < next_free s \<and> length (m_ForwardPointers n) = MaximumLevels"
    and lvs: "\<And>M. M < MaximumLevels \<Longrightarrow> level_ok lt s M (xss ! M)"
    and above: "\<And>M. m_HighestLevel s < M \<Longrightarrow> M < MaximumLevels \<Longrightarrow> xss ! M = []"
    and subs: "\<And>M. Suc M < MaximumLevels \<Longrightarrow> set (xss ! Suc M) \<subseteq> set (xss ! M)"
    and len: "length xss = MaximumLevels"
    using inv unfolding skiplist_inv_level_ok by auto
  have L0: "0 < MaximumLevels" by (simp add: MaximumLevels_def)
  have start: "?H # xss ! m_HighestLevel s = [] @ ?H # xss ! m_HighestLevel s" by simp
  from Insert_levels_ok[OF inv HL _ start, of "replicate MaximumLevels None" k]
  obtain c0 ups where r:
    "Insert_levels lt s (Outside, k) (m_HighestLevel s) (Some ?H) (replicate MaximumLevels None)
       = Some (Inr (Some c0, ups))"
    "length ups = MaximumLevels" "ups ! 0 = Some c0"
    "\<forall>M \<le> m_HighestLevel s. \<exists>cM. ups ! M = Some cM \<and> pred_at lt s xss k M cM"
    by auto
  from r(3,4) have p0: "pred_at lt s xss k 0 c0" by auto
  then obtain pre0 suf0 where dec0: "?H # xss ! 0 = pre0 @ c0 # suf0"
    and s0k: "suf0 = [] \<or> \<not> lt (key_at s (hd suf0)) k"
    unfolding pred_at_def by blast
  have ch0: "chain (nodes s) 0 (Some ?H) (pre0 @ c0 # suf0) ?E"
    using lvs[OF L0] unfolding level_ok_def dec0 by simp
  from chain_split[OF ch0] obtain m where m: "nodes s c0 = Some m"
    "0 < length (m_ForwardPointers m)" "chain (nodes s) 0 (m_ForwardPointers m ! 0) suf0 ?E"
    by auto
  define y where "y = hd (suf0 @ [?E])"
  have my: "m_ForwardPointers m ! 0 = Some y" unfolding y_def using m(3) by (rule chain_hd)
  have "nodes s y \<noteq> None"
  proof (cases suf0)
    case Nil then show ?thesis using Eok by (simp add: y_def)
  next
    case (Cons a list)
    then show ?thesis using m(3) by (auto simp: y_def split: option.splits)
  qed
  then obtain ny where ny: "nodes s y = Some ny" by auto
  have g0: "GetForwardPointer s (Some c0) 0 = Inr (Some y)"
    using m my by (simp add: GetForwardPointer_eq)
  have gk: "GetKey s (Some y) = Inr (InNode y, fst (m_KeyValue ny))"
    using ny by (simp add: GetKey_def deref_def)
  show ?thesis
  proof (cases "eq (fst (m_KeyValue ny)) k")
    case True
    have "Insert lt eq coin k v s
            = Some (Inr (s\<lparr>nodes := (nodes s)(y \<mapsto> ny\<lparr>m_KeyValue := (fst (m_KeyValue ny), v)\<rparr>)\<rparr>))"
      using r(1) g0 gk True ny
      by (simp add: Insert_def and_then_def ok_bind_def SetValue_def deref_def)
    with skiplist_inv_SetValue[OF inv ny, of v] show ?thesis by blast
  next
    case False
    obtain lvl g' where rl: "GetRandomLevel coin (m_RandomGenerator s) = (lvl, g')"
      by (cases "GetRandomLevel coin (m_RandomGenerator s)")
    have lvl: "lvl < MaximumLevels" using GetRandomLevel_bound[of coin "m_RandomGenerator s"] rl by simp
    define hi where "hi = (if lvl > m_HighestLevel s then lvl else m_HighestLevel s)"
    have hi: "hi < MaximumLevels" "m_HighestLevel s \<le> hi" using lvl HL by (auto simp: hi_def)
    have "\<exists>ups'. (if lvl > m_HighestLevel s
                  then ok_bind (Insert_raise lvl (Some ?H) (m_HighestLevel s + 1) ups)
                         (\<lambda>u. Inr (u, lvl))
                  else Inr (ups, m_HighestLevel s)) = Inr (ups', hi) \<and>
             length ups' = MaximumLevels \<and>
             (\<forall>M. ups' ! M = (if m_HighestLevel s < M \<and> M \<le> hi then Some ?H else ups ! M))"
    proof (cases "lvl > m_HighestLevel s")
      case True
      then have "m_HighestLevel s + 1 \<le> Suc lvl" by simp
      from Insert_raise_ok[OF lvl r(2) this, of "Some ?H"] obtain ups' where
        "Insert_raise lvl (Some ?H) (m_HighestLevel s + 1) ups = Inr ups'"
        "length ups' = MaximumLevels"
        "\<forall>M. ups' ! M = (if m_HighestLevel s + 1 \<le> M \<and> M \<le> lvl then Some ?H else ups ! M)"
        by blast
      then show ?thesis using True by (intro exI[of _ ups']) (auto simp: hi_def ok_bind_def)
    next
      case False
      then show ?thesis using r(2) by (intro exI[of _ ups]) (auto simp: hi_def)
    qed
    then obtain ups' where raise:
      "(if lvl > m_HighestLevel s
        then ok_bind (Insert_raise lvl (Some ?H) (m_HighestLevel s + 1) ups) (\<lambda>u. Inr (u, lvl))
        else Inr (ups, m_HighestLevel s)) = Inr (ups', hi)"
      and ups'len: "length ups' = MaximumLevels"
      and ups'nth: "\<And>M. ups' ! M = (if m_HighestLevel s < M \<and> M \<le> hi then Some ?H else ups ! M)"
      by blast
    define new where "new = next_free s"
    define nn :: "('a, 'b) NodeType" where "nn = NodeType_new (k, v)"
    define s1 where "s1 = s\<lparr>m_RandomGenerator := g', m_HighestLevel := hi\<rparr>
                            \<lparr>nodes := (nodes s)(new \<mapsto> nn), next_free := Suc new\<rparr>"
    have nw: "new_node (s\<lparr>m_RandomGenerator := g', m_HighestLevel := hi\<rparr>) (NodeType_new (k, v))
                = (new, s1)"
      by (simp add: new_node_def s1_def new_def nn_def)
    have newfree: "nodes s new = None"
      using alloc[of new] by (cases "nodes s new") (auto simp: new_def)
    have newHE: "new \<noteq> ?H" "new \<noteq> ?E"
      using newfree Eok lvs[OF L0] level_ok_allocated[OF lvs[OF L0], of ?H] by auto
    have old: "\<And>x. nodes s x \<noteq> None \<Longrightarrow> nodes s1 x = nodes s x"
      using newfree by (auto simp: s1_def)
    have lv1: "\<forall>M<MaximumLevels. level_ok lt s1 M (xss ! M)"
    proof (intro allI impI)
      fix M assume M: "M < MaximumLevels"
      have "level_ok lt s1 M (xss ! M) = level_ok lt s M (xss ! M)"
      proof (rule level_ok_cong)
        fix x assume "x \<in> set (?H # xss ! M)"
        then have "nodes s x \<noteq> None" using level_ok_allocated[OF lvs[OF M]] by blast
        then show "nodes s1 x = nodes s x" by (rule old)
      qed (simp_all add: s1_def)
      with lvs[OF M] show "level_ok lt s1 M (xss ! M)" by simp
    qed
    have succ: "\<And>z. z \<in> set (xss ! 0) \<Longrightarrow> next_at s 0 c0 = Some z \<Longrightarrow> lt k (key_at s z)"
    proof -
      fix z assume z: "z \<in> set (xss ! 0)" "next_at s 0 c0 = Some z"
      then have zy: "z = y" using m my by (simp add: next_at_def)
      have "z \<noteq> ?E" using level_ok_allocated[OF lvs[OF L0], of z] z(1) by simp
      then have "suf0 \<noteq> []" using zy by (auto simp: y_def)
      then have "y = hd suf0" "\<not> lt (key_at s (hd suf0)) k" using s0k by (auto simp: y_def)
      then have "\<not> lt (fst (m_KeyValue ny)) k" using ny by (simp add: key_at_def)
      from tri[OF this False] show "lt k (key_at s z)" using zy ny by (simp add: key_at_def)
    qed
    have ip1: "\<forall>M. 0 \<le> M \<and> M \<le> hi \<longrightarrow>
                 new \<notin> set (xss ! M) \<and> (\<exists>c. ups' ! M = Some c \<and> ins_point lt s1 k (xss ! M) c)"
    proof (intro allI impI)
      fix M assume "0 \<le> M \<and> M \<le> hi"
      then have Mhi: "M \<le> hi" and M: "M < MaximumLevels" using hi by auto
      have nin: "new \<notin> set (xss ! M)"
        using level_ok_allocated[OF lvs[OF M], of new] newfree by auto
      have "\<exists>c. ups' ! M = Some c \<and> ins_point lt s k (xss ! M) c"
      proof (cases "M \<le> m_HighestLevel s")
        case True
        with r(4) obtain cM where cM: "ups ! M = Some cM" "pred_at lt s xss k M cM" by blast
        from pred_at_ins_point[OF inv tr p0 succ cM(2) M] cM(1) True ups'nth[of M]
        show ?thesis by auto
      next
        case False
        then have "xss ! M = []" using above M by simp
        then have "?H # xss ! M = [] @ ?H # []" by simp
        then have "ins_point lt s k (xss ! M) ?H" unfolding ins_point_def by blast
        then show ?thesis using False Mhi ups'nth[of M] by auto
      qed
      then obtain c where c: "ups' ! M = Some c" "ins_point lt s k (xss ! M) c" by blast
      have "ins_point lt s1 k (xss ! M) c"
      proof (rule ins_point_cong[OF _ _ c(2)])
        fix x assume "x \<in> set (?H # xss ! M)"
        then have "nodes s x \<noteq> None" using level_ok_allocated[OF lvs[OF M]] by blast
        then show "key_at s1 x = key_at s x" using old by (simp add: key_at_def)
      qed (simp add: s1_def)
      with nin c(1) show "new \<notin> set (xss ! M) \<and> (\<exists>c. ups' ! M = Some c \<and> ins_point lt s1 k (xss ! M) c)"
        by blast
    qed
    have b1: "new \<noteq> m_Header s1" "new \<noteq> m_End s1" using newHE by (simp_all add: s1_def)
    have b2: "nodes s1 new = Some nn" "length (m_ForwardPointers nn) = MaximumLevels"
      "fst (m_KeyValue nn) = k"
      by (simp_all add: s1_def nn_def NodeType_new_def)
    from Insert_splice_ok[OF tr hi(1) ups'len _ b1 b2 lv1 ip1]
    obtain h' where sp: "Insert_splice hi ups' (Some new) 0 s1 = Inr (s1\<lparr>nodes := h'\<rparr>)"
      and dom0: "\<forall>x. nodes s1 x = None \<longrightarrow> h' x = None"
      and dom1: "\<forall>x n. nodes s1 x = Some n \<longrightarrow>
              (\<exists>n'. h' x = Some n' \<and> m_KeyValue n' = m_KeyValue n \<and>
                    length (m_ForwardPointers n') = length (m_ForwardPointers n))"
      and lv': "\<forall>M<MaximumLevels. level_ok lt (s1\<lparr>nodes := h'\<rparr>) M
               (if 0 \<le> M \<and> M \<le> hi
                then tl (ins_after (the (ups' ! M)) new (m_Header s1 # xss ! M)) else xss ! M)"
      by auto
    define s2 where "s2 = s1\<lparr>nodes := h'\<rparr>"
    define xss' where "xss' = map (\<lambda>M. if M \<le> hi
                then tl (ins_after (the (ups' ! M)) new (?H # xss ! M)) else xss ! M)
                [0..<MaximumLevels]"
    have run: "Insert lt eq coin k v s = Some (Inr (s2\<lparr>m_Size := m_Size s2 + 1\<rparr>))"
      using r(1) g0 gk False rl raise nw sp
      by (simp add: Insert_def and_then_def ok_bind_def s2_def s1_def)
    have xnth: "\<And>M. M < MaximumLevels \<Longrightarrow> xss' ! M = (if M \<le> hi
                then tl (ins_after (the (ups' ! M)) new (?H # xss ! M)) else xss ! M)"
      by (simp add: xss'_def)
    have i1: "\<forall>a n. nodes s2 a = Some n \<longrightarrow>
                a < next_free s2 \<and> length (m_ForwardPointers n) = MaximumLevels"
    proof (intro allI impI)
      fix a n assume a: "nodes s2 a = Some n"
      then have "nodes s1 a \<noteq> None" using dom0 by (auto simp: s2_def)
      then obtain n1 where n1: "nodes s1 a = Some n1" by auto
      from dom1[rule_format, OF n1] a
      have ln: "length (m_ForwardPointers n) = length (m_ForwardPointers n1)"
        by (auto simp: s2_def)
      show "a < next_free s2 \<and> length (m_ForwardPointers n) = MaximumLevels"
      proof (cases "a = new")
        case True
        then show ?thesis using n1 ln b2 by (simp add: s2_def s1_def)
      next
        case False
        then have "nodes s a = Some n1" using n1 by (simp add: s1_def)
        from alloc[OF this] show ?thesis using ln by (simp add: s2_def s1_def new_def)
      qed
    qed
    have i2: "nodes s2 (m_End s2) \<noteq> None"
    proof -
      obtain en where "nodes s ?E = Some en" using Eok by auto
      then have "nodes s1 ?E = Some en" using old[of ?E] by simp
      from dom1[rule_format, OF this] show ?thesis by (auto simp: s2_def s1_def)
    qed
    have i3: "\<forall>M<MaximumLevels. level_ok lt s2 M (xss' ! M)"
      using lv' xnth by (simp add: s2_def s1_def cong: if_cong)
    have cmem: "\<And>M. M \<le> hi \<Longrightarrow> the (ups' ! M) \<in> set (?H # xss ! M)"
    proof -
      fix M assume "M \<le> hi"
      with ip1 obtain c where "ups' ! M = Some c" "ins_point lt s1 k (xss ! M) c" by auto
      then show "the (ups' ! M) \<in> set (?H # xss ! M)"
        using ins_point_mem[of lt s1 k "xss ! M" c] by (simp add: s1_def)
    qed
    have Hnot: "\<And>M. M < MaximumLevels \<Longrightarrow> ?H \<notin> set (xss ! M)"
      using lvs by (simp add: level_ok_def)
    have sets: "\<And>M. M \<le> hi \<Longrightarrow> set (xss' ! M) = insert new (set (xss ! M))"
    proof -
      fix M assume M: "M \<le> hi"
      then have "M < MaximumLevels" using hi by simp
      then show "set (xss' ! M) = insert new (set (xss ! M))"
        using xnth[of M] M set_tl_ins_after[OF cmem[OF M] Hnot, of new] by simp
    qed
    have i4: "\<forall>L. Suc L < MaximumLevels \<longrightarrow> set (xss' ! Suc L) \<subseteq> set (xss' ! L)"
    proof (intro allI impI)
      fix L assume L: "Suc L < MaximumLevels"
      show "set (xss' ! Suc L) \<subseteq> set (xss' ! L)"
      proof (cases "Suc L \<le> hi")
        case True
        then show ?thesis using sets[of "Suc L"] sets[of L] subs[OF L] by auto
      next
        case False
        then have "xss' ! Suc L = []" using xnth[OF L] above[of "Suc L"] L hi by simp
        then show ?thesis by simp
      qed
    qed
    have i5: "\<forall>L. m_HighestLevel s2 < L \<and> L < MaximumLevels \<longrightarrow> xss' ! L = []"
      using xnth above hi by (auto simp: s2_def s1_def)
    have "skiplist_inv lt s2 xss'"
      unfolding skiplist_inv_level_ok
      using i1 i2 i3 i4 i5 HE hi by (simp add: s2_def s1_def xss'_def)
    with run show ?thesis by (intro exI[of _ "s2\<lparr>m_Size := m_Size s2 + 1\<rparr>"] exI[of _ xss']) simp
  qed
qed

section \<open>Search and Delete on a well-formed list\<close>

subsection \<open>The three traversals agree\<close>

lemma Delete_level_eq:
  assumes "Insert_level lt s K L c ups = Some (Inr r)"
  shows "Delete_level lt s K L c ups = Some (Inr r)"
  using assms
  by (auto simp: Insert_level_def Delete_level_def and_then_def ok_bind_def
      split: option.splits sum.splits)

lemma Delete_levels_eq:
  "Insert_levels lt s K L c ups = Some (Inr r) \<Longrightarrow> Delete_levels lt s K L c ups = Some (Inr r)"
proof (induction L arbitrary: c ups)
  case 0
  then show ?case by (simp add: Delete_level_eq)
next
  case (Suc L)
  from Suc.prems obtain c' ups' where
    a: "Insert_level lt s K (Suc L) c ups = Some (Inr (c', ups'))"
    and b: "Insert_levels lt s K L c' ups' = Some (Inr r)"
    by (auto simp: and_then_def split: option.splits sum.splits)
  from Delete_level_eq[OF a] Suc.IH[OF b] show ?case by (simp add: and_then_def)
qed

lemma Search_level_eq:
  assumes "Insert_level lt s K L c ups = Some (Inr (c', ups'))"
  shows "Search_level lt s K L c = Some (Inr c')"
  using assms
  by (auto simp: Insert_level_def Search_level_def and_then_def ok_bind_def
      split: option.splits sum.splits)

lemma Search_levels_eq:
  "Insert_levels lt s K L c ups = Some (Inr (c', ups')) \<Longrightarrow>
     Search_levels lt s K L c = Some (Inr c')"
proof (induction L arbitrary: c ups)
  case 0
  then show ?case by (simp add: Search_level_eq)
next
  case (Suc L)
  from Suc.prems obtain c1 ups1 where
    a: "Insert_level lt s K (Suc L) c ups = Some (Inr (c1, ups1))"
    and b: "Insert_levels lt s K L c1 ups1 = Some (Inr (c', ups'))"
    by (auto simp: and_then_def split: option.splits sum.splits)
  from Search_level_eq[OF a] Suc.IH[OF b] show ?case by (simp add: and_then_def)
qed

lemma chain_unsplice:
  assumes ch: "chain h L p (pre @ c # y # suf) e"
    and nc: "h c = Some nc" and ny: "h y = Some ny"
  shows "chain (h(c \<mapsto> nc\<lparr>m_ForwardPointers := (m_ForwardPointers nc)[L := m_ForwardPointers ny ! L]\<rparr>))
           L p (pre @ c # suf) e"
proof -
  define h2 where "h2 = h(c \<mapsto> nc\<lparr>m_ForwardPointers := (m_ForwardPointers nc)[L := m_ForwardPointers ny ! L]\<rparr>)"
  have dist: "distinct (pre @ c # y # suf)" using ch by (rule chain_distinct)
  have h2c: "h2 c = Some (nc\<lparr>m_ForwardPointers := (m_ForwardPointers nc)[L := m_ForwardPointers ny ! L]\<rparr>)"
    by (simp add: h2_def)
  have h2other: "\<And>x. x \<noteq> c \<Longrightarrow> h2 x = h x"
    by (simp add: h2_def)
  have "chain h2 L p (pre @ c # suf) e"
    using ch dist
  proof (induction pre arbitrary: p)
    case Nil
    then have c: "p = Some c" "c \<noteq> e" "L < length (m_ForwardPointers nc)"
      "chain h L (m_ForwardPointers ny ! L) suf e"
      using nc ny by auto
    have "chain h2 L (m_ForwardPointers ny ! L) suf e = chain h L (m_ForwardPointers ny ! L) suf e"
      using Nil.prems by (intro chain_frame h2other) auto
    then show ?case using c h2c by simp
  next
    case (Cons x pre)
    then obtain n where n: "p = Some x" "x \<noteq> e" "h x = Some n" "L < length (m_ForwardPointers n)"
      "chain h L (m_ForwardPointers n ! L) (pre @ c # y # suf) e"
      by (auto split: option.splits)
    have "chain h2 L (m_ForwardPointers n ! L) (pre @ c # suf) e"
      using Cons.IH[OF n(5)] Cons.prems by auto
    moreover have "h2 x = Some n" using Cons.prems n h2other[of x] by auto
    ultimately show ?case using n by simp
  qed
  then show ?thesis by (simp add: h2_def)
qed

lemma sorted_wrt_remove1:
  "sorted_wrt P (map f xs) \<Longrightarrow> sorted_wrt P (map f (remove1 y xs))"
proof (induction xs)
  case Nil
  show ?case by simp
next
  case (Cons x xs)
  then show ?case using notin_set_remove1[of _ xs y] by (auto simp: )
qed


lemma unsplice_level:
  assumes lv: "level_ok lt s L xs" and dec: "m_Header s # xs = pre @ c # y # suf"
  shows "\<exists>r h2. GetForwardPointer s (Some c) L = Inr (Some y) \<and>
           GetForwardPointer s (Some y) L = Inr r \<and>
           SetForwardPointer s (Some c) L r = Inr (s\<lparr>nodes := h2\<rparr>) \<and>
           only_level L (nodes s) h2 \<and>
           level_ok lt (s\<lparr>nodes := h2\<rparr>) L (remove1 y xs)"
proof -
  let ?H = "m_Header s" and ?E = "m_End s"
  from lv have ch: "chain (nodes s) L (Some ?H) (pre @ c # y # suf) ?E"
    and Hn: "?H \<notin> set xs" and srt: "sorted_wrt lt (map (key_at s) xs)"
    unfolding level_ok_def dec by auto
  from chain_split[OF ch] obtain nc where nc: "nodes s c = Some nc" "c \<noteq> ?E"
    "L < length (m_ForwardPointers nc)"
    "chain (nodes s) L (m_ForwardPointers nc ! L) (y # suf) ?E" by auto
  then obtain ny where ny: "m_ForwardPointers nc ! L = Some y" "nodes s y = Some ny"
    "L < length (m_ForwardPointers ny)"
    by (auto split: option.splits)
  define h2 where "h2 = (nodes s)(c \<mapsto> nc\<lparr>m_ForwardPointers :=
                      (m_ForwardPointers nc)[L := m_ForwardPointers ny ! L]\<rparr>)"
  have g1: "GetForwardPointer s (Some c) L = Inr (Some y)"
    using nc ny by (simp add: GetForwardPointer_eq)
  have g2: "GetForwardPointer s (Some y) L = Inr (m_ForwardPointers ny ! L)"
    using ny by (simp add: GetForwardPointer_eq)
  have st: "SetForwardPointer s (Some c) L (m_ForwardPointers ny ! L) = Inr (s\<lparr>nodes := h2\<rparr>)"
    using nc by (simp add: SetForwardPointer_eq h2_def)
  have ol: "only_level L (nodes s) h2"
    unfolding only_level_def
  proof
    fix x
    show "case nodes s x of None \<Rightarrow> h2 x = None
          | Some n \<Rightarrow> \<exists>n'. h2 x = Some n' \<and> m_KeyValue n' = m_KeyValue n \<and>
               length (m_ForwardPointers n') = length (m_ForwardPointers n) \<and>
               (\<forall>M. M \<noteq> L \<longrightarrow> m_ForwardPointers n' ! M = m_ForwardPointers n ! M)"
      using nc by (cases "x = c") (auto simp: h2_def split: option.splits)
  qed
  have ch2: "chain h2 L (Some ?H) (pre @ c # suf) ?E"
    unfolding h2_def using chain_unsplice[OF ch nc(1) ny(2)] .
  have dist: "distinct (pre @ c # y # suf)" using ch by (rule chain_distinct)
  have rm: "?H # remove1 y xs = pre @ c # suf"
  proof (cases pre)
    case Nil
    then show ?thesis using dec by auto
  next
    case (Cons h pre')
    then have "xs = pre' @ c # y # suf" "h = ?H" using dec by auto
    moreover have "y \<notin> set pre'" "y \<noteq> c" using dist Cons by auto
    ultimately show ?thesis using Cons by (simp add: remove1_append)
  qed
  have keys: "key_at (s\<lparr>nodes := h2\<rparr>) = key_at s"
    using only_level_key[of L s "s\<lparr>nodes := h2\<rparr>"] ol by simp
  have "?H \<notin> set (remove1 y xs)" using Hn by (auto dest: notin_set_remove1)
  then have "level_ok lt (s\<lparr>nodes := h2\<rparr>) L (remove1 y xs)"
    unfolding level_ok_def using ch2 rm keys sorted_wrt_remove1[OF srt, of y]
    by (simp del: chain.simps)
  with g1 g2 st ol show ?thesis by blast
qed

lemma no_unsplice:
  assumes lv: "level_ok lt s L xs" and dec: "m_Header s # xs = pre @ c # suf"
    and y: "y \<notin> set xs" "y \<noteq> m_End s"
  shows "\<exists>p. GetForwardPointer s (Some c) L = Inr p \<and> p \<noteq> Some y"
proof -
  from lv have ch: "chain (nodes s) L (Some (m_Header s)) (pre @ c # suf) (m_End s)"
    unfolding level_ok_def dec by auto
  from chain_split[OF ch] obtain nc where nc: "nodes s c = Some nc"
    "L < length (m_ForwardPointers nc)"
    "chain (nodes s) L (m_ForwardPointers nc ! L) suf (m_End s)" by auto
  from chain_hd[OF nc(3)] have p: "m_ForwardPointers nc ! L = Some (hd (suf @ [m_End s]))" .
  have "set suf \<subseteq> set xs"
  proof (cases pre)
    case Nil then show ?thesis using dec by auto
  next
    case (Cons h pre') then show ?thesis using dec by auto
  qed
  then have "hd (suf @ [m_End s]) \<noteq> y" using y by (cases suf) auto
  with p nc show ?thesis by (simp add: GetForwardPointer_eq)
qed

lemma absent_upwards:
  assumes sub: "\<forall>M. L \<le> M \<and> Suc M < MaximumLevels \<longrightarrow>
                  (y \<in> set (yss (Suc M)) \<longrightarrow> y \<in> set (yss M))"
    and "y \<notin> set (yss L)"
  shows "L \<le> M \<Longrightarrow> M < MaximumLevels \<Longrightarrow> y \<notin> set (yss M)"
proof (induction M)
  case 0
  with assms(2) show ?case by simp
next
  case (Suc M)
  show ?case
  proof (cases "L = Suc M")
    case True with assms(2) show ?thesis by simp
  next
    case False
    with Suc.prems have "L \<le> M" "M < MaximumLevels" by auto
    with Suc.IH have "y \<notin> set (yss M)" by simp
    with sub \<open>L \<le> M\<close> Suc.prems(2) show ?thesis by blast
  qed
qed

subsection \<open>The splice loop of Delete\<close>

lemma Delete_splice_ok:
  assumes hi: "hi < MaximumLevels" and ups: "length ups = MaximumLevels"
    and L: "L \<le> Suc hi"
    and yE: "y \<noteq> m_End s"
    and lv: "\<forall>M<MaximumLevels. level_ok lt s M (yss M)"
    and pr: "\<forall>M. L \<le> M \<and> M \<le> hi \<longrightarrow>
               (\<exists>c pre suf. ups ! M = Some c \<and> m_Header s # yss M = pre @ c # suf \<and>
                  (y \<in> set (yss M) \<longrightarrow> suf \<noteq> [] \<and> hd suf = y))"
    and sub: "\<forall>M. L \<le> M \<and> Suc M < MaximumLevels \<longrightarrow>
                (y \<in> set (yss (Suc M)) \<longrightarrow> y \<in> set (yss M))"
    and top: "\<forall>M. hi < M \<and> M < MaximumLevels \<longrightarrow> y \<notin> set (yss M)"
  shows "\<exists>h'. Delete_splice hi ups (Some y) L s = Inr (s\<lparr>nodes := h'\<rparr>) \<and>
           (\<forall>x. nodes s x = None \<longrightarrow> h' x = None) \<and>
           (\<forall>x n. nodes s x = Some n \<longrightarrow>
              (\<exists>n'. h' x = Some n' \<and> m_KeyValue n' = m_KeyValue n \<and>
                    length (m_ForwardPointers n') = length (m_ForwardPointers n))) \<and>
           (\<forall>M<MaximumLevels. level_ok lt (s\<lparr>nodes := h'\<rparr>) M
               (if L \<le> M then remove1 y (yss M) else yss M))"
  using L yE lv pr sub top
proof (induction "Suc hi - L" arbitrary: L s yss)
  case 0
  from "0.hyps" "0.prems"(1) have nL: "\<not> L \<le> hi" by simp
  then have "Delete_splice hi ups (Some y) L s = Inr (s\<lparr>nodes := nodes s\<rparr>)"
    by (subst Delete_splice.simps) simp
  moreover have "\<forall>M<MaximumLevels. level_ok lt (s\<lparr>nodes := nodes s\<rparr>) M
               (if L \<le> M then remove1 y (yss M) else yss M)"
  proof (intro allI impI)
    fix M assume M: "M < MaximumLevels"
    show "level_ok lt (s\<lparr>nodes := nodes s\<rparr>) M (if L \<le> M then remove1 y (yss M) else yss M)"
    proof (cases "L \<le> M")
      case True
      then have "y \<notin> set (yss M)" using "0.prems"(6) nL M by simp
      then show ?thesis using "0.prems"(3) M True by (simp add: remove1_idem)
    next
      case False
      then show ?thesis using "0.prems"(3) M by simp
    qed
  qed
  ultimately show ?case by (intro exI[of _ "nodes s"]) simp
next
  case (Suc d)
  from Suc.hyps(2) have Lhi: "L \<le> hi" by simp
  then have LM: "L < MaximumLevels" using hi by simp
  have "L \<le> L \<and> L \<le> hi" using Lhi by simp
  from Suc.prems(4)[rule_format, OF this] obtain c pre suf where c: "ups ! L = Some c"
    "m_Header s # yss L = pre @ c # suf" "y \<in> set (yss L) \<longrightarrow> suf \<noteq> [] \<and> hd suf = y"
    by auto
  have lvL: "level_ok lt s L (yss L)" using Suc.prems(3) LM by simp
  have atL: "at ups L = Inr (Some c)" using c(1) ups LM by (simp add: at_def)
  show ?case
  proof (cases "y \<in> set (yss L)")
    case False
    from no_unsplice[OF lvL c(2) False Suc.prems(2)]
    obtain p where p: "GetForwardPointer s (Some c) L = Inr p" "p \<noteq> Some y" by blast
    have run: "Delete_splice hi ups (Some y) L s = Inr (s\<lparr>nodes := nodes s\<rparr>)"
      using Lhi atL p by (subst Delete_splice.simps) simp
    have "\<forall>M<MaximumLevels. level_ok lt (s\<lparr>nodes := nodes s\<rparr>) M
               (if L \<le> M then remove1 y (yss M) else yss M)"
    proof (intro allI impI)
      fix M assume M: "M < MaximumLevels"
      show "level_ok lt (s\<lparr>nodes := nodes s\<rparr>) M (if L \<le> M then remove1 y (yss M) else yss M)"
      proof (cases "L \<le> M")
        case True
        from absent_upwards[OF Suc.prems(5) False True M]
        show ?thesis using Suc.prems(3) M True by (simp add: remove1_idem)
      next
        case False
        then show ?thesis using Suc.prems(3) M by simp
      qed
    qed
    with run show ?thesis by (intro exI[of _ "nodes s"]) simp
  next
    case True
    with c(3) obtain suf' where "suf = y # suf'" by (cases suf) auto
    with c(2) have dec: "m_Header s # yss L = pre @ c # y # suf'" by simp
    from unsplice_level[OF lvL dec]
    obtain r h2 where st: "GetForwardPointer s (Some c) L = Inr (Some y)"
      "GetForwardPointer s (Some y) L = Inr r"
      "SetForwardPointer s (Some c) L r = Inr (s\<lparr>nodes := h2\<rparr>)"
      "only_level L (nodes s) h2"
      "level_ok lt (s\<lparr>nodes := h2\<rparr>) L (remove1 y (yss L))"
      by blast
    let ?s2 = "s\<lparr>nodes := h2\<rparr>"
    define yss' where "yss' = yss(L := remove1 y (yss L))"
    have a1: "Suc L \<le> Suc hi" using Lhi by simp
    have a2: "d = Suc hi - Suc L" using Suc.hyps(2) by simp
    have a3: "y \<noteq> m_End ?s2" using Suc.prems(2) by simp
    have a4: "\<forall>M<MaximumLevels. level_ok lt ?s2 M (yss' M)"
    proof (intro allI impI)
      fix M assume "M < MaximumLevels"
      then show "level_ok lt ?s2 M (yss' M)"
        using st(5) Suc.prems(3) level_ok_only_level[OF st(4), of M lt]
        by (cases "M = L") (auto simp: yss'_def)
    qed
    have a5: "\<forall>M. Suc L \<le> M \<and> M \<le> hi \<longrightarrow>
               (\<exists>c pre suf. ups ! M = Some c \<and> m_Header ?s2 # yss' M = pre @ c # suf \<and>
                  (y \<in> set (yss' M) \<longrightarrow> suf \<noteq> [] \<and> hd suf = y))"
    proof (intro allI impI)
      fix M assume M: "Suc L \<le> M \<and> M \<le> hi"
      then have MneL: "M \<noteq> L" and "L \<le> M \<and> M \<le> hi" by auto
      from Suc.prems(4)[rule_format, OF this(2)]
      show "\<exists>c pre suf. ups ! M = Some c \<and> m_Header ?s2 # yss' M = pre @ c # suf \<and>
                  (y \<in> set (yss' M) \<longrightarrow> suf \<noteq> [] \<and> hd suf = y)"
        using MneL by (simp add: yss'_def)
    qed
    have a6: "\<forall>M. Suc L \<le> M \<and> Suc M < MaximumLevels \<longrightarrow>
                (y \<in> set (yss' (Suc M)) \<longrightarrow> y \<in> set (yss' M))"
    proof (intro allI impI)
      fix M assume M: "Suc L \<le> M \<and> Suc M < MaximumLevels" and y: "y \<in> set (yss' (Suc M))"
      then have MneL: "M \<noteq> L" "Suc M \<noteq> L" and "L \<le> M \<and> Suc M < MaximumLevels" by auto
      from Suc.prems(5)[rule_format, OF this(3)] y MneL
      show "y \<in> set (yss' M)" by (simp add: yss'_def)
    qed
    have a7: "\<forall>M. hi < M \<and> M < MaximumLevels \<longrightarrow> y \<notin> set (yss' M)"
    proof (intro allI impI)
      fix M assume M: "hi < M \<and> M < MaximumLevels"
      then have "M \<noteq> L" using Lhi by auto
      with Suc.prems(6)[rule_format, OF M] show "y \<notin> set (yss' M)" by (simp add: yss'_def)
    qed
    from Suc.hyps(1)[OF a2 a1 a3 a4 a5 a6 a7]
    obtain h' where h': "Delete_splice hi ups (Some y) (Suc L) ?s2 = Inr (?s2\<lparr>nodes := h'\<rparr>)"
      "\<forall>x. nodes ?s2 x = None \<longrightarrow> h' x = None"
      "\<forall>x n. nodes ?s2 x = Some n \<longrightarrow>
              (\<exists>n'. h' x = Some n' \<and> m_KeyValue n' = m_KeyValue n \<and>
                    length (m_ForwardPointers n') = length (m_ForwardPointers n))"
      "\<forall>M<MaximumLevels. level_ok lt (?s2\<lparr>nodes := h'\<rparr>) M
               (if Suc L \<le> M then remove1 y (yss' M) else yss' M)"
      by blast
    have run: "Delete_splice hi ups (Some y) L s = Inr (s\<lparr>nodes := h'\<rparr>)"
      using Lhi atL st(1,2,3) h'(1)
      by (subst Delete_splice.simps) simp
    have d1: "\<forall>x. nodes s x = None \<longrightarrow> h' x = None"
      using h'(2) only_level_None[OF st(4)] by simp
    have d2: "\<forall>x n. nodes s x = Some n \<longrightarrow>
              (\<exists>n'. h' x = Some n' \<and> m_KeyValue n' = m_KeyValue n \<and>
                    length (m_ForwardPointers n') = length (m_ForwardPointers n))"
    proof (intro allI impI)
      fix x n assume "nodes s x = Some n"
      from only_level_Some[OF st(4) this] obtain m where m: "h2 x = Some m"
        "m_KeyValue m = m_KeyValue n" "length (m_ForwardPointers m) = length (m_ForwardPointers n)"
        by blast
      from h'(3)[rule_format, of x m] m
      show "\<exists>n'. h' x = Some n' \<and> m_KeyValue n' = m_KeyValue n \<and>
                    length (m_ForwardPointers n') = length (m_ForwardPointers n)"
        by auto
    qed
    have d3: "\<forall>M<MaximumLevels. level_ok lt (s\<lparr>nodes := h'\<rparr>) M
               (if L \<le> M then remove1 y (yss M) else yss M)"
    proof (intro allI impI)
      fix M assume M: "M < MaximumLevels"
      from h'(4)[rule_format, OF M] have "level_ok lt (s\<lparr>nodes := h'\<rparr>) M
               (if Suc L \<le> M then remove1 y (yss' M) else yss' M)"
        by (simp cong: if_cong)
      then show "level_ok lt (s\<lparr>nodes := h'\<rparr>) M
               (if L \<le> M then remove1 y (yss M) else yss M)"
        by (cases "M = L") (auto simp: yss'_def)
    qed
    from run d1 d2 d3 show ?thesis by blast
  qed
qed



lemma level_ok_distinct:
  "level_ok lt s M xs \<Longrightarrow> distinct xs"
  unfolding level_ok_def using chain_distinct by fastforce

lemma pred_at_level_succ:
  assumes inv: "skiplist_inv lt s xss" and tr: "transp lt" and irr: "irreflp lt"
    and dec0: "m_Header s # xss ! 0 = pre0 @ c0 # y # suf0"
    and c0k: "c0 = m_Header s \<or> lt (key_at s c0) k"
    and ynk: "\<not> lt (key_at s y) k"
    and pM: "pred_at lt s xss k M c" and M: "M < MaximumLevels"
    and yM: "y \<in> set (xss ! M)"
  shows "\<exists>pre suf. m_Header s # xss ! M = pre @ c # y # suf"
proof -
  let ?H = "m_Header s"
  have L0: "0 < MaximumLevels" by (simp add: MaximumLevels_def)
  from inv L0 have Hnot0: "?H \<notin> set (xss ! 0)"
    and srt0: "sorted_wrt lt (map (key_at s) (xss ! 0))"
    by (auto simp: skiplist_inv_def)
  from inv M have HnotM: "?H \<notin> set (xss ! M)"
    and srtM: "sorted_wrt lt (map (key_at s) (xss ! M))"
    by (auto simp: skiplist_inv_def)
  have nrefl: "\<And>x. \<not> lt x x" using irr by (simp add: irreflp_def)
  have before: "\<And>a. a \<in> set (xss ! 0) \<Longrightarrow> lt (key_at s a) (key_at s y) \<Longrightarrow> lt (key_at s a) k"
  proof -
    fix a assume a: "a \<in> set (xss ! 0)" and ay: "lt (key_at s a) (key_at s y)"
    show "lt (key_at s a) k"
    proof (cases pre0)
      case Nil
      then have xs: "xss ! 0 = y # suf0" using dec0 by simp
      have "a \<noteq> y" using ay nrefl by auto
      then have "a \<in> set suf0" using a xs by simp
      then have "lt (key_at s y) (key_at s a)" using srt0 xs by auto
      with ay tr have "lt (key_at s a) (key_at s a)" by (auto dest: transpD)
      then show ?thesis using nrefl by simp
    next
      case (Cons h pre')
      then have xs: "xss ! 0 = pre' @ c0 # y # suf0" and cH: "c0 \<noteq> ?H"
        using dec0 Hnot0 by auto
      then have clt: "lt (key_at s c0) k" using c0k by simp
      have "a \<noteq> y" using ay nrefl by auto
      moreover have "a \<notin> set suf0"
      proof
        assume "a \<in> set suf0"
        then have "lt (key_at s y) (key_at s a)" using srt0 xs by (auto simp: sorted_wrt_append)
        with ay tr have "lt (key_at s a) (key_at s a)" by (auto dest: transpD)
        then show False using nrefl by simp
      qed
      ultimately have "a \<in> set pre' \<or> a = c0" using a xs by auto
      then show ?thesis
      proof
        assume "a \<in> set pre'"
        then have "lt (key_at s a) (key_at s c0)" using srt0 xs by (auto simp: sorted_wrt_append)
        with clt tr show ?thesis by (auto dest: transpD)
      next
        assume "a = c0" with clt show ?thesis by simp
      qed
    qed
  qed
  from pM obtain pre suf where dec: "?H # xss ! M = pre @ c # suf"
    and ck: "c = ?H \<or> lt (key_at s c) k"
    and sk: "suf = [] \<or> \<not> lt (key_at s (hd suf)) k"
    unfolding pred_at_def by blast
  have sub0: "set (xss ! M) \<subseteq> set (xss ! 0)" using subset_level0[OF inv M] .
  have ysuf: "y \<in> set suf"
  proof (cases pre)
    case Nil
    then show ?thesis using dec yM by auto
  next
    case (Cons h pre')
    then have xs: "xss ! M = pre' @ c # suf" and cH: "c \<noteq> ?H" using dec HnotM by auto
    then have clt: "lt (key_at s c) k" using ck by simp
    have "y \<notin> set pre'"
    proof
      assume "y \<in> set pre'"
      then have "lt (key_at s y) (key_at s c)" using srtM xs by (auto simp: sorted_wrt_append)
      with clt tr have "lt (key_at s y) k" by (auto dest: transpD)
      with ynk show False by simp
    qed
    moreover have "y \<noteq> c" using clt ynk by auto
    ultimately show ?thesis using yM xs by auto
  qed
  then obtain z suf' where suf: "suf = z # suf'" by (cases suf) auto
  have sorted_suf: "sorted_wrt lt (map (key_at s) suf)"
  proof (cases pre)
    case Nil then show ?thesis using dec srtM by auto
  next
    case (Cons h pre') then show ?thesis using dec srtM by (auto simp: sorted_wrt_append)
  qed
  have zM: "z \<in> set (xss ! M)"
  proof (cases pre)
    case Nil with dec suf show ?thesis by auto
  next
    case (Cons h pre') with dec suf show ?thesis by auto
  qed
  have "z = y"
  proof (rule ccontr)
    assume "z \<noteq> y"
    then have "y \<in> set suf'" using ysuf suf by simp
    then have "lt (key_at s z) (key_at s y)" using sorted_suf suf by auto
    with before[of z] zM sub0 have "lt (key_at s z) k" by auto
    with sk suf show False by simp
  qed
  with dec suf show ?thesis by blast
qed

subsection \<open>The whole operations\<close>

text \<open>
  On a well-formed list, under a transitive and irreflexive comparison, \<open>Delete\<close> of
  a key that \<open>operator!=\<close> tells apart from the key stored in the terminal node
  returns 0 or 1 without an error and leaves a well-formed list. With 0 the list is
  unchanged; with 1 the size is one less, and \<open>m_HighestLevel\<close> is what it was: the
  loop that should lower it never runs, because no header pointer is \<open>nullptr\<close>.
\<close>

lemma Delete_preserves_inv:
  assumes inv: "skiplist_inv lt s xss" and tr: "transp lt" and irr: "irreflp lt"
    and nd: "neq (key_at s (m_End s)) k"
  shows "\<exists>n s' xss'. Delete lt neq k s = Some (Inr (n, s')) \<and> skiplist_inv lt s' xss' \<and>
           (n = 0 \<and> s' = s \<or>
            n = 1 \<and> GetSize s' = GetSize s - 1 \<and> m_HighestLevel s' = m_HighestLevel s)"
proof -
  let ?H = "m_Header s" and ?E = "m_End s"
  have HL: "m_HighestLevel s < MaximumLevels" and HE: "?H \<noteq> ?E"
    and Eok: "nodes s ?E \<noteq> None"
    and alloc: "\<And>a n. nodes s a = Some n \<Longrightarrow>
                  a < next_free s \<and> length (m_ForwardPointers n) = MaximumLevels"
    and lvs: "\<And>M. M < MaximumLevels \<Longrightarrow> level_ok lt s M (xss ! M)"
    and above: "\<And>M. m_HighestLevel s < M \<Longrightarrow> M < MaximumLevels \<Longrightarrow> xss ! M = []"
    and subs: "\<And>M. Suc M < MaximumLevels \<Longrightarrow> set (xss ! Suc M) \<subseteq> set (xss ! M)"
    and len: "length xss = MaximumLevels"
    using inv unfolding skiplist_inv_level_ok by auto
  have L0: "0 < MaximumLevels" by (simp add: MaximumLevels_def)
  have start: "?H # xss ! m_HighestLevel s = [] @ ?H # xss ! m_HighestLevel s" by simp
  from Insert_levels_ok[OF inv HL _ start, of "replicate MaximumLevels None" k]
  obtain c0 ups where r:
    "Insert_levels lt s (Outside, k) (m_HighestLevel s) (Some ?H) (replicate MaximumLevels None)
       = Some (Inr (Some c0, ups))"
    "length ups = MaximumLevels" "ups ! 0 = Some c0"
    "\<forall>M \<le> m_HighestLevel s. \<exists>cM. ups ! M = Some cM \<and> pred_at lt s xss k M cM"
    by auto
  have rd: "Delete_levels lt s (Outside, k) (m_HighestLevel s) (Some ?H)
              (replicate MaximumLevels None) = Some (Inr (Some c0, ups))"
    using r(1) by (rule Delete_levels_eq)
  from r(3,4) have p0: "pred_at lt s xss k 0 c0" by auto
  then obtain pre0 suf0 where dec0: "?H # xss ! 0 = pre0 @ c0 # suf0"
    and c0k: "c0 = ?H \<or> lt (key_at s c0) k"
    and s0k: "suf0 = [] \<or> \<not> lt (key_at s (hd suf0)) k"
    unfolding pred_at_def by blast
  have ch0: "chain (nodes s) 0 (Some ?H) (pre0 @ c0 # suf0) ?E"
    using lvs[OF L0] unfolding level_ok_def dec0 by simp
  from chain_split[OF ch0] obtain m where m: "nodes s c0 = Some m"
    "0 < length (m_ForwardPointers m)" "chain (nodes s) 0 (m_ForwardPointers m ! 0) suf0 ?E"
    by auto
  define y where "y = hd (suf0 @ [?E])"
  have my: "m_ForwardPointers m ! 0 = Some y" unfolding y_def using m(3) by (rule chain_hd)
  have "nodes s y \<noteq> None"
  proof (cases suf0)
    case Nil then show ?thesis using Eok by (simp add: y_def)
  next
    case (Cons a list)
    then show ?thesis using m(3) by (auto simp: y_def split: option.splits)
  qed
  then obtain ny where ny: "nodes s y = Some ny" by auto
  have g0: "GetForwardPointer s (Some c0) 0 = Inr (Some y)"
    using m my by (simp add: GetForwardPointer_eq)
  have gk: "GetKey s (Some y) = Inr (InNode y, fst (m_KeyValue ny))"
    using ny by (simp add: GetKey_def deref_def)
  show ?thesis
  proof (cases "neq (fst (m_KeyValue ny)) k")
    case True
    have "Delete lt neq k s = Some (Inr (0, s))"
      using rd g0 gk True by (simp add: Delete_def and_then_def ok_bind_def)
    with inv show ?thesis by blast
  next
    case False
    have yE: "y \<noteq> ?E"
    proof
      assume "y = ?E"
      then have "key_at s ?E = fst (m_KeyValue ny)" using ny by (simp add: key_at_def)
      with nd False show False by simp
    qed
    then obtain suf1 where suf0: "suf0 = y # suf1" by (cases suf0) (auto simp: y_def)
    have dec0': "?H # xss ! 0 = pre0 @ c0 # y # suf1" using dec0 suf0 by simp
    have ynk: "\<not> lt (key_at s y) k" using s0k suf0 by simp
    have y0: "y \<in> set (xss ! 0)"
    proof (cases pre0)
      case Nil with dec0' show ?thesis by auto
    next
      case (Cons h pre') with dec0' show ?thesis by auto
    qed
    have yH: "y \<noteq> ?H" using y0 lvs[OF L0] by (auto simp: level_ok_def)
    have pr: "\<forall>M. 0 \<le> M \<and> M \<le> m_HighestLevel s \<longrightarrow>
               (\<exists>c pre suf. ups ! M = Some c \<and> ?H # xss ! M = pre @ c # suf \<and>
                  (y \<in> set (xss ! M) \<longrightarrow> suf \<noteq> [] \<and> hd suf = y))"
    proof (intro allI impI)
      fix M assume "0 \<le> M \<and> M \<le> m_HighestLevel s"
      then have Mhi: "M \<le> m_HighestLevel s" and M: "M < MaximumLevels" using HL by auto
      from r(4) Mhi obtain c where c: "ups ! M = Some c" "pred_at lt s xss k M c" by blast
      show "\<exists>c pre suf. ups ! M = Some c \<and> ?H # xss ! M = pre @ c # suf \<and>
                  (y \<in> set (xss ! M) \<longrightarrow> suf \<noteq> [] \<and> hd suf = y)"
      proof (cases "y \<in> set (xss ! M)")
        case True
        from pred_at_level_succ[OF inv tr irr dec0' c0k ynk c(2) M True]
        obtain pre suf where "?H # xss ! M = pre @ c # y # suf" by blast
        then show ?thesis using c(1) by (intro exI[of _ c] exI[of _ pre] exI[of _ "y # suf"]) simp
      next
        case False
        from c(2) obtain pre suf where "?H # xss ! M = pre @ c # suf"
          unfolding pred_at_def by blast
        then show ?thesis using c(1) False by blast
      qed
    qed
    have sub: "\<forall>M. 0 \<le> M \<and> Suc M < MaximumLevels \<longrightarrow>
                (y \<in> set (xss ! Suc M) \<longrightarrow> y \<in> set (xss ! M))"
      using subs by blast
    have top: "\<forall>M. m_HighestLevel s < M \<and> M < MaximumLevels \<longrightarrow> y \<notin> set (xss ! M)"
      using above by simp
    have lv: "\<forall>M<MaximumLevels. level_ok lt s M (xss ! M)" using lvs by simp
    from Delete_splice_ok[OF HL r(2) _ yE lv pr sub top]
    obtain h' where sp: "Delete_splice (m_HighestLevel s) ups (Some y) 0 s = Inr (s\<lparr>nodes := h'\<rparr>)"
      and dom0: "\<forall>x. nodes s x = None \<longrightarrow> h' x = None"
      and dom1: "\<forall>x n. nodes s x = Some n \<longrightarrow>
              (\<exists>n'. h' x = Some n' \<and> m_KeyValue n' = m_KeyValue n \<and>
                    length (m_ForwardPointers n') = length (m_ForwardPointers n))"
      and lv': "\<forall>M<MaximumLevels. level_ok lt (s\<lparr>nodes := h'\<rparr>) M
               (if 0 \<le> M then remove1 y (xss ! M) else xss ! M)"
      by auto
    from dom1[rule_format, OF ny] obtain ny' where ny': "h' y = Some ny'" by blast
    define s2 where "s2 = s\<lparr>nodes := h'(y := None)\<rparr>"
    have dn: "delete_node (s\<lparr>nodes := h'\<rparr>) (Some y) = Inr s2"
      using ny' by (simp add: delete_node_def deref_def s2_def)
    have lv2: "\<And>M. M < MaximumLevels \<Longrightarrow> level_ok lt s2 M (remove1 y (xss ! M))"
    proof -
      fix M assume M: "M < MaximumLevels"
      from lv'[rule_format, OF M]
      have l1: "level_ok lt (s\<lparr>nodes := h'\<rparr>) M (remove1 y (xss ! M))" by simp
      have "distinct (xss ! M)" using level_ok_distinct[OF lvs[OF M]] .
      then have ynot: "y \<notin> set (remove1 y (xss ! M))" by simp
      have "level_ok lt s2 M (remove1 y (xss ! M))
              = level_ok lt (s\<lparr>nodes := h'\<rparr>) M (remove1 y (xss ! M))"
      proof (rule level_ok_cong)
        fix x assume "x \<in> set (m_Header (s\<lparr>nodes := h'\<rparr>) # remove1 y (xss ! M))"
        then have "x \<noteq> y" using ynot yH by auto
        then show "nodes s2 x = nodes (s\<lparr>nodes := h'\<rparr>) x" by (simp add: s2_def)
      qed (simp_all add: s2_def)
      with l1 show "level_ok lt s2 M (remove1 y (xss ! M))" by simp
    qed
    have low: "Delete_lower s2 = Inr s2"
    proof (cases "m_HighestLevel s2 > 0")
      case False
      then show ?thesis by (subst Delete_lower.simps) simp
    next
      case True
      have M: "m_HighestLevel s2 < MaximumLevels" using HL by (simp add: s2_def)
      from lv2[OF M] have "chain (nodes s2) (m_HighestLevel s2) (Some (m_Header s2))
              (m_Header s2 # remove1 y (xss ! m_HighestLevel s2)) (m_End s2)"
        by (simp add: level_ok_def)
      then obtain hn where hn: "nodes s2 (m_Header s2) = Some hn"
        "m_HighestLevel s2 < length (m_ForwardPointers hn)"
        "chain (nodes s2) (m_HighestLevel s2) (m_ForwardPointers hn ! m_HighestLevel s2)
           (remove1 y (xss ! m_HighestLevel s2)) (m_End s2)"
        by (auto split: option.splits)
      from chain_hd[OF hn(3)] obtain q where "m_ForwardPointers hn ! m_HighestLevel s2 = Some q"
        by simp
      then show ?thesis using True hn(1,2)
        by (subst Delete_lower.simps) (simp add: GetForwardPointer_eq)
    qed
    have run: "Delete lt neq k s = Some (Inr (1, s2\<lparr>m_Size := m_Size s2 - 1\<rparr>))"
      using rd g0 gk False sp dn low
      by (simp add: Delete_def and_then_def ok_bind_def)
    define xss' where "xss' = map (remove1 y) xss"
    have xnth: "\<And>M. M < MaximumLevels \<Longrightarrow> xss' ! M = remove1 y (xss ! M)"
      using len by (simp add: xss'_def)
    have i1: "\<forall>a n. nodes s2 a = Some n \<longrightarrow>
                a < next_free s2 \<and> length (m_ForwardPointers n) = MaximumLevels"
    proof (intro allI impI)
      fix a n assume a: "nodes s2 a = Some n"
      then have ha: "h' a = Some n" by (auto simp: s2_def split: if_splits)
      then have "nodes s a \<noteq> None" using dom0 by auto
      then obtain n1 where n1: "nodes s a = Some n1" by auto
      from dom1[rule_format, OF n1] ha
      have "length (m_ForwardPointers n) = length (m_ForwardPointers n1)" by auto
      with alloc[OF n1] show "a < next_free s2 \<and> length (m_ForwardPointers n) = MaximumLevels"
        by (simp add: s2_def)
    qed
    have i2: "nodes s2 (m_End s2) \<noteq> None"
    proof -
      obtain en where "nodes s ?E = Some en" using Eok by auto
      from dom1[rule_format, OF this] yE show ?thesis by (auto simp: s2_def)
    qed
    have i3: "\<forall>M<MaximumLevels. level_ok lt s2 M (xss' ! M)"
      using lv2 xnth by simp
    have i4: "\<forall>L. Suc L < MaximumLevels \<longrightarrow> set (xss' ! Suc L) \<subseteq> set (xss' ! L)"
    proof (intro allI impI)
      fix L assume L: "Suc L < MaximumLevels"
      then have L': "L < MaximumLevels" by simp
      have "set (remove1 y (xss ! Suc L)) = set (xss ! Suc L) - {y}"
        using level_ok_distinct[OF lvs[OF L]] by simp
      moreover have "set (remove1 y (xss ! L)) = set (xss ! L) - {y}"
        using level_ok_distinct[OF lvs[OF L']] by simp
      ultimately show "set (xss' ! Suc L) \<subseteq> set (xss' ! L)"
        using subs[OF L] xnth[OF L] xnth[OF L'] by auto
    qed
    have i5: "\<forall>L. m_HighestLevel s2 < L \<and> L < MaximumLevels \<longrightarrow> xss' ! L = []"
      using xnth above by (auto simp: s2_def)
    have "skiplist_inv lt s2 xss'"
      unfolding skiplist_inv_level_ok
      using i1 i2 i3 i4 i5 HE HL len by (simp add: s2_def xss'_def)
    moreover have "GetSize (s2\<lparr>m_Size := m_Size s2 - 1\<rparr>) = GetSize s - 1"
      "m_HighestLevel (s2\<lparr>m_Size := m_Size s2 - 1\<rparr>) = m_HighestLevel s"
      by (simp_all add: GetSize_def s2_def)
    ultimately show ?thesis using run
      by (intro exI[of _ 1] exI[of _ "s2\<lparr>m_Size := m_Size s2 - 1\<rparr>"] exI[of _ xss']) simp
  qed
qed

lemma Search_present:
  assumes inv: "skiplist_inv lt s xss" and tr: "transp lt" and irr: "irreflp lt"
    and eq: "eq k k"
    and a: "a \<in> set (xss ! 0)" and ak: "key_at s a = k"
  shows "Search lt eq k s = Some (Inr \<lparr>m_CurrentNode = Some a\<rparr>)"
proof -
  let ?H = "m_Header s"
  have HL: "m_HighestLevel s < MaximumLevels" using inv by (simp add: skiplist_inv_def)
  have start: "?H # xss ! m_HighestLevel s = [] @ ?H # xss ! m_HighestLevel s" by simp
  from Insert_levels_ok[OF inv HL _ start, of "replicate MaximumLevels None" k]
  obtain c0 ups' where r:
    "Insert_levels lt s (Outside, k) (m_HighestLevel s) (Some ?H) (replicate MaximumLevels None)
       = Some (Inr (Some c0, ups'))"
    "\<forall>M \<le> m_HighestLevel s. \<exists>cM. ups' ! M = Some cM \<and> pred_at lt s xss k M cM"
    "ups' ! 0 = Some c0"
    by auto
  from r(2,3) have p0: "pred_at lt s xss k 0 c0" by auto
  from pred_at_successor[OF inv tr irr p0 a ak]
  obtain m where m: "nodes s c0 = Some m" "m_ForwardPointers m ! 0 = Some a"
    by (auto simp: next_at_def)
  have len: "0 < length (m_ForwardPointers m)"
    using inv m(1) by (auto simp: skiplist_inv_def MaximumLevels_def)
  have "nodes s a \<noteq> None"
    using inv a chain_mem[of "nodes s" 0 "Some ?H" "?H # xss ! 0" "m_End s" a]
    by (auto simp: skiplist_inv_def MaximumLevels_def)
  then obtain n where n: "nodes s a = Some n" by auto
  with ak have "fst (m_KeyValue n) = k" by (simp add: key_at_def)
  then show ?thesis
    using Search_levels_eq[OF r(1)] m len n eq
    by (simp add: Search_def and_then_def ok_bind_def GetForwardPointer_def GetKey_def deref_def)
qed

section \<open>Clear\<close>

lemma Clear_loop_ok:
  assumes "chain (nodes s) 0 p xs (m_End s)"
  shows "Clear_loop s p
           = Some (Inr (s\<lparr>nodes := (\<lambda>a. if a \<in> set xs then None else nodes s a)\<rparr>))"
  using assms
proof (induction xs arbitrary: s p)
  case Nil
  then show ?case by (subst Clear_loop.simps) simp
next
  case (Cons x xs)
  then obtain n where n: "p = Some x" "x \<noteq> m_End s" "nodes s x = Some n"
    "0 < length (m_ForwardPointers n)" "chain (nodes s) 0 (m_ForwardPointers n ! 0) xs (m_End s)"
    by (auto split: option.splits)
  let ?s' = "s\<lparr>nodes := (nodes s)(x := None)\<rparr>"
  have "distinct (x # xs)" using Cons.prems by (rule chain_distinct)
  then have xn: "x \<notin> set xs" by simp
  have "chain (nodes ?s') 0 (m_ForwardPointers n ! 0) xs (m_End ?s')
          = chain (nodes s) 0 (m_ForwardPointers n ! 0) xs (m_End s)"
    using xn by (simp, intro chain_frame) auto
  with n(5) have "chain (nodes ?s') 0 (m_ForwardPointers n ! 0) xs (m_End ?s')" by simp
  from Cons.IH[OF this]
  have "Clear_loop ?s' (m_ForwardPointers n ! 0)
          = Some (Inr (?s'\<lparr>nodes := (\<lambda>a. if a \<in> set xs then None else nodes ?s' a)\<rparr>))" .
  moreover have "?s'\<lparr>nodes := (\<lambda>a. if a \<in> set xs then None else nodes ?s' a)\<rparr>
                   = s\<lparr>nodes := (\<lambda>a. if a \<in> set (x # xs) then None else nodes s a)\<rparr>"
    by (auto simp: fun_eq_iff)
  ultimately show ?case using n
    by (subst Clear_loop.simps)
      (simp add: GetForwardPointer_eq delete_node_def deref_def del: set_simps)
qed

lemma Clear_preserves_inv:
  assumes inv: "skiplist_inv lt s xss"
  shows "\<exists>s'. Clear s = Some (Inr s') \<and> skiplist_inv lt s' (replicate MaximumLevels []) \<and>
           GetSize s' = 0 \<and> m_HighestLevel s' = 0"
proof -
  let ?H = "m_Header s" and ?E = "m_End s"
  have L0: "0 < MaximumLevels" by (simp add: MaximumLevels_def)
  from inv L0 have ch: "chain (nodes s) 0 (Some ?H) (?H # xss ! 0) ?E"
    and Hn: "?H \<notin> set (xss ! 0)" and HE: "?H \<noteq> ?E" and Eok: "nodes s ?E \<noteq> None"
    and alloc: "\<And>a n. nodes s a = Some n \<Longrightarrow>
                  a < next_free s \<and> length (m_ForwardPointers n) = MaximumLevels"
    by (auto simp: skiplist_inv_def)
  from ch obtain hn where hn: "nodes s ?H = Some hn" "0 < length (m_ForwardPointers hn)"
    "chain (nodes s) 0 (m_ForwardPointers hn ! 0) (xss ! 0) ?E"
    by (auto split: option.splits)
  have En: "?E \<notin> set (xss ! 0)" using chain_mem[OF hn(3)] by blast
  define h1 where "h1 = (\<lambda>a. if a \<in> set (xss ! 0) then None else nodes s a)"
  have g: "GetForwardPointer s (Some ?H) 0 = Inr (m_ForwardPointers hn ! 0)"
    using hn by (simp add: GetForwardPointer_eq)
  have lp: "Clear_loop s (m_ForwardPointers hn ! 0) = Some (Inr (s\<lparr>nodes := h1\<rparr>))"
    unfolding h1_def using hn(3) by (rule Clear_loop_ok)
  have h1H: "h1 ?H = Some hn" using Hn hn by (simp add: h1_def)
  define s' where "s' = s\<lparr>nodes := h1(?H \<mapsto> hn\<lparr>m_ForwardPointers :=
                           replicate (length (m_ForwardPointers hn)) (Some ?E)\<rparr>),
                        m_HighestLevel := 0, m_Size := 0\<rparr>"
  have run: "Clear s = Some (Inr s')"
    using g lp h1H
    by (simp add: Clear_def and_then_def ok_bind_def SetForwardPointers_def deref_def s'_def)
  have lenH: "length (m_ForwardPointers hn) = MaximumLevels" using alloc[OF hn(1)] by simp
  have "skiplist_inv lt s' (replicate MaximumLevels [])"
    unfolding skiplist_inv_def
  proof (intro conjI allI impI)
    show "nodes s' (m_End s') \<noteq> None" using Eok En HE by (simp add: s'_def h1_def)
  next
    fix a n assume "nodes s' a = Some n"
    then show "a < next_free s'" "length (m_ForwardPointers n) = MaximumLevels"
      using alloc[of a] lenH hn by (auto simp: s'_def h1_def split: if_splits)
  next
    fix L assume "L < MaximumLevels"
    then show "chain (nodes s') L (Some (m_Header s'))
                (m_Header s' # replicate MaximumLevels [] ! L) (m_End s')"
      using HE lenH by (simp add: s'_def)
  qed (simp_all add: s'_def HE L0)
  with run show ?thesis by (intro exI[of _ s']) (simp add: s'_def GetSize_def)
qed

section \<open>Every list built by the operations is well formed\<close>

lemma built_skiplist_inv:
  assumes tr: "transp lt" and irr: "irreflp lt"
    and tri: "\<And>x y. \<not> lt x y \<Longrightarrow> \<not> eq x y \<Longrightarrow> lt y x"
  shows "built lt eq neq coin s \<Longrightarrow> \<exists>xss. skiplist_inv lt s xss"
proof (induction rule: built.induct)
  case (built_new DefaultKey DefaultValue g)
  show ?case by (rule exI, rule skiplist_inv_new)
next
  case (built_Insert s k v s')
  then obtain xss where "skiplist_inv lt s xss" by blast
  from Insert_preserves_inv[OF this tr tri, of eq coin k v] built_Insert.hyps(2)
  show ?case by auto
next
  case (built_Delete s k n s')
  then obtain xss where "skiplist_inv lt s xss" by blast
  from Delete_preserves_inv[where neq = neq and k = k, OF this tr irr built_Delete.hyps(2)]
    built_Delete.hyps(3)
  show ?case by auto
next
  case (built_Clear s s')
  then obtain xss where "skiplist_inv lt s xss" by blast
  from Clear_preserves_inv[OF this] built_Clear.hyps(2)
  show ?case by auto
qed

end
